theory Spec2Isabelle
  imports Complex_Main "HOL-Library.Log_Nat"
begin

section \<open>JavaScript numbers\<close>

text \<open>
  A JavaScript number is an IEEE 754 double: a finite value, one of the two infinities, or
  NaN. A finite double is modelled by the rational it denotes; the arithmetic operators
  round their exact result to the nearest double (ties to even) with \<open>fl\<close> below.
  The two zeros are identified: no function of \<open>coco.js\<close> modelled here divides by a
  zero whose sign could be observed, and both zeros print as \<open>0\<close>.
\<close>

datatype jsnum = Fin rat | PInf | NInf | NaN

text \<open>Round to the nearest integer, ties to the even one.\<close>

definition rne :: "rat \<Rightarrow> int" where
  "rne x = (let f = \<lfloor>x\<rfloor>; d = x - of_int f in
            if d < 1/2 then f else if 1/2 < d then f + 1
            else if even f then f else f + 1)"

text \<open>The binary exponent of a positive rational: \<open>2 powi ilog2 x \<le> x < 2 powi (ilog2 x + 1)\<close>.\<close>

definition ilog2 :: "rat \<Rightarrow> int" where
  "ilog2 x = (case quotient_of x of (p, q) \<Rightarrow>
     let d = bitlen p - bitlen q in if 2 powi d \<le> x then d else d - 1)"

text \<open>
  Rounding to double precision: 53 significant bits, the unit in the last place never below
  \<open>2 powi (-1074)\<close> (gradual underflow), overflow to an infinity from \<open>2 powi 1024\<close> on.
\<close>

definition fl :: "rat \<Rightarrow> jsnum" where
  "fl x = (if x = 0 then Fin 0
           else let e = max (ilog2 \<bar>x\<bar> - 52) (- 1074);
                    y = of_int (rne (\<bar>x\<bar> / 2 powi e)) * 2 powi e
                in if 2 powi 1024 \<le> y then (if 0 < x then PInf else NInf)
                   else Fin (sgn x * y))"

text \<open>The unit roundoff: half the distance of two neighbouring doubles between 1 and 2.\<close>

definition eps :: rat where
  "eps = 1 / 2 ^ 53"

fun jssgn :: "jsnum \<Rightarrow> int" where
  "jssgn (Fin a) = (if a < 0 then - 1 else if a = 0 then 0 else 1)"
| "jssgn PInf = 1"
| "jssgn NInf = - 1"
| "jssgn NaN = 0"

fun jsneg :: "jsnum \<Rightarrow> jsnum" where
  "jsneg (Fin a) = Fin (- a)"
| "jsneg PInf = NInf"
| "jsneg NInf = PInf"
| "jsneg NaN = NaN"

fun jsadd :: "jsnum \<Rightarrow> jsnum \<Rightarrow> jsnum" where
  "jsadd NaN _ = NaN"
| "jsadd _ NaN = NaN"
| "jsadd (Fin a) (Fin b) = fl (a + b)"
| "jsadd PInf NInf = NaN"
| "jsadd NInf PInf = NaN"
| "jsadd PInf _ = PInf"
| "jsadd _ PInf = PInf"
| "jsadd NInf _ = NInf"
| "jsadd _ NInf = NInf"

definition jssub :: "jsnum \<Rightarrow> jsnum \<Rightarrow> jsnum" where
  "jssub a b = jsadd a (jsneg b)"

fun jsmul :: "jsnum \<Rightarrow> jsnum \<Rightarrow> jsnum" where
  "jsmul NaN _ = NaN"
| "jsmul _ NaN = NaN"
| "jsmul (Fin a) (Fin b) = fl (a * b)"
| "jsmul a b = (if jssgn a * jssgn b = 0 then NaN
                else if 0 < jssgn a * jssgn b then PInf else NInf)"

fun jsdiv :: "jsnum \<Rightarrow> jsnum \<Rightarrow> jsnum" where
  "jsdiv NaN _ = NaN"
| "jsdiv _ NaN = NaN"
| "jsdiv (Fin a) (Fin b) =
     (if b = 0 then (if a = 0 then NaN else if 0 < a then PInf else NInf)
      else fl (a / b))"
| "jsdiv (Fin a) _ = Fin 0"
| "jsdiv a (Fin b) = (if b < 0 then jsneg a else a)"
| "jsdiv _ _ = NaN"

text \<open>The comparison \<open>a < b\<close>; every comparison with NaN is false.\<close>

fun jsless :: "jsnum \<Rightarrow> jsnum \<Rightarrow> bool" where
  "jsless NaN _ = False"
| "jsless _ NaN = False"
| "jsless (Fin a) (Fin b) = (a < b)"
| "jsless _ NInf = False"
| "jsless NInf _ = True"
| "jsless PInf _ = False"
| "jsless _ PInf = True"

definition jseq :: "jsnum \<Rightarrow> jsnum \<Rightarrow> bool" where
  "jseq a b = (a \<noteq> NaN \<and> a = b)"

definition isNaN :: "jsnum \<Rightarrow> bool" where
  "isNaN v = (v = NaN)"

definition Math_min :: "jsnum \<Rightarrow> jsnum \<Rightarrow> jsnum" where
  "Math_min a b = (if a = NaN \<or> b = NaN then NaN else if jsless b a then b else a)"

text \<open>\<open>Math.round\<close>: the nearest integer, a tie going up.\<close>

fun Math_round :: "jsnum \<Rightarrow> jsnum" where
  "Math_round (Fin a) = Fin (of_int \<lfloor>a + 1/2\<rfloor>)"
| "Math_round v = v"

text \<open>The operator \<open>%\<close>: the remainder of the division truncated towards zero, which is exact.\<close>

definition trunc :: "rat \<Rightarrow> int" where
  "trunc q = (if q < 0 then \<lceil>q\<rceil> else \<lfloor>q\<rfloor>)"

fun jsrem :: "jsnum \<Rightarrow> jsnum \<Rightarrow> jsnum" where
  "jsrem NaN _ = NaN"
| "jsrem _ NaN = NaN"
| "jsrem (Fin a) (Fin b) = (if b = 0 then NaN else Fin (a - b * of_int (trunc (a / b))))"
| "jsrem (Fin a) _ = Fin a"
| "jsrem _ _ = NaN"

section \<open>JavaScript strings\<close>

text \<open>
  A JavaScript string is a sequence of UTF-16 code units. \<open>ustr\<close> turns a literal of
  8-bit characters into the code units of the same characters.
\<close>

type_synonym jsstring = "nat list"

definition ustr :: "string \<Rightarrow> jsstring" where
  "ustr s = map of_char s"

text \<open>
  The primitive values of JavaScript. Objects, whose conversion to a number or a string runs
  methods of their own, are left out.
\<close>

datatype jsval = Num jsnum | Str jsstring | Bool bool | Null | Undefined | Symbol | BigInt int

datatype error = TypeError

text \<open>
  Three parts of the language are not written out and are parameters of the model, the
  host: the rendering of a number that is not an integer below \<open>2^53\<close> (with a fraction or
  in exponent notation), the conversion of a string to a number, and the upper case of a
  string holding a character outside the table of \<open>upper_unit\<close> below.
\<close>

record host =
  sci :: "rat \<Rightarrow> jsstring"
  StringToNumber :: "jsstring \<Rightarrow> jsnum"
  UnicodeUpperCase :: "jsstring \<Rightarrow> jsstring"

text \<open>
  The conversion of a value to a number, as the arithmetic and \<open>isNaN\<close> apply it. A symbol
  cannot be converted; neither can a BigInt, nor can it be multiplied with a number.
\<close>

definition ToNumber :: "host \<Rightarrow> jsval \<Rightarrow> error + jsnum" where
  "ToNumber H v =
    (case v of
       Num x \<Rightarrow> Inr x
     | Str s \<Rightarrow> Inr (StringToNumber H s)
     | Bool b \<Rightarrow> Inr (Fin (if b then 1 else 0))
     | Null \<Rightarrow> Inr (Fin 0)
     | Undefined \<Rightarrow> Inr NaN
     | Symbol \<Rightarrow> Inl TypeError
     | BigInt n \<Rightarrow> Inl TypeError)"

text \<open>
  \<open>s.charAt(pos)\<close>: the position is a number, truncated to an integer (NaN counts as 0);
  the result is the empty string when the position is outside the string.
\<close>

fun charAt :: "jsstring \<Rightarrow> jsnum \<Rightarrow> jsstring" where
  "charAt s (Fin q) =
     (let i = trunc q in if 0 \<le> i \<and> i < int (length s) then [s ! nat i] else [])"
| "charAt s NaN = take 1 s"
| "charAt s _ = []"

text \<open>\<open>s.substr(start, length)\<close> for a start and a length that are not negative.\<close>

definition substr :: "jsstring \<Rightarrow> nat \<Rightarrow> nat \<Rightarrow> jsstring" where
  "substr s start len = take len (drop start s)"

text \<open>
  \<open>toUpperCase\<close> maps every character through the Unicode case tables, and the result of one
  character can be several. The table \<open>upper_unit\<close> is written out for the characters of
  \<open>upper_known\<close>: ASCII, Latin-1, and every other character whose upper case contains an
  ASCII character (the dotless i, the long s, and the entries of SpecialCasing.txt such as
  the ligature U+FB00, whose upper case is \<open>FF\<close>). A string with any other code unit is
  mapped by the host, which stands for the rest of the Unicode tables.
\<close>

definition upper_known :: "nat \<Rightarrow> bool" where
  "upper_known c =
    (c < 0x100
     \<or> c \<in> {0x131, 0x149, 0x17F, 0x1F0, 0x1E96, 0x1E97, 0x1E98, 0x1E99, 0x1E9A,
            0xFB00, 0xFB01, 0xFB02, 0xFB03, 0xFB04, 0xFB05, 0xFB06})"

definition upper_unit :: "nat \<Rightarrow> jsstring" where
  "upper_unit c =
    (if 0x61 \<le> c \<and> c \<le> 0x7A then [c - 0x20]
     else if c = 0xB5 then [0x39C]
     else if c = 0xDF then [0x53, 0x53]
     else if 0xE0 \<le> c \<and> c \<le> 0xFE \<and> c \<noteq> 0xF7 then [c - 0x20]
     else if c = 0xFF then [0x178]
     else if c = 0x131 then [0x49]
     else if c = 0x149 then [0x2BC, 0x4E]
     else if c = 0x17F then [0x53]
     else if c = 0x1F0 then [0x4A, 0x30C]
     else if c = 0x1E96 then [0x48, 0x331]
     else if c = 0x1E97 then [0x54, 0x308]
     else if c = 0x1E98 then [0x57, 0x30A]
     else if c = 0x1E99 then [0x59, 0x30A]
     else if c = 0x1E9A then [0x41, 0x2BE]
     else if c = 0xFB00 then [0x46, 0x46]
     else if c = 0xFB01 then [0x46, 0x49]
     else if c = 0xFB02 then [0x46, 0x4C]
     else if c = 0xFB03 then [0x46, 0x46, 0x49]
     else if c = 0xFB04 then [0x46, 0x46, 0x4C]
     else if c = 0xFB05 then [0x53, 0x54]
     else if c = 0xFB06 then [0x53, 0x54]
     else [c])"

definition toUpperCase :: "host \<Rightarrow> jsstring \<Rightarrow> jsstring" where
  "toUpperCase H s =
    (if list_all upper_known s then concat (map upper_unit s) else UnicodeUpperCase H s)"

text \<open>
  \<open>parseInt(s, radix)\<close> for a radix from 2 to 36 (\<open>coco.js\<close> passes 16 and 10): leading
  white space is skipped, then a sign, then with radix 16 a prefix \<open>0x\<close> or \<open>0X\<close>; the
  longest run of digits of the radix that follows is the value, and NaN when the run is
  empty.
\<close>

definition StrWhiteSpaceChar :: "nat \<Rightarrow> bool" where
  "StrWhiteSpaceChar c =
     (c \<in> {0x9, 0xA, 0xB, 0xC, 0xD, 0x20, 0xA0, 0x1680, 0x2028, 0x2029, 0x202F, 0x205F,
            0x3000, 0xFEFF}
      \<or> (0x2000 \<le> c \<and> c \<le> 0x200A))"

text \<open>The value of a digit; 36 for a character that is no digit in any radix.\<close>

definition digitVal :: "nat \<Rightarrow> nat" where
  "digitVal c =
     (if 0x30 \<le> c \<and> c \<le> 0x39 then c - 0x30
      else if 0x41 \<le> c \<and> c \<le> 0x5A then c - 0x41 + 10
      else if 0x61 \<le> c \<and> c \<le> 0x7A then c - 0x61 + 10
      else 36)"

definition parseInt :: "jsstring \<Rightarrow> nat \<Rightarrow> jsnum" where
  "parseInt s radix =
    (let S = dropWhile StrWhiteSpaceChar s;
         neg = (take 1 S = ustr ''-'');
         S1 = (if take 1 S = ustr ''+'' \<or> take 1 S = ustr ''-'' then drop 1 S else S);
         S2 = (if radix = 16 \<and> (take 2 S1 = ustr ''0x'' \<or> take 2 S1 = ustr ''0X'')
               then drop 2 S1 else S1);
         Z = takeWhile (\<lambda>c. digitVal c < radix) S2
     in if Z = [] then NaN
        else let number = fl (of_nat (foldl (\<lambda>a c. a * radix + digitVal c) 0 Z))
             in if neg then jsneg number else number)"

text \<open>
  Numbers as strings. \<open>dec\<close> writes a natural number in decimal. \<open>NumberToString\<close> is
  the conversion that \<open>+\<close> applies to a number joined to a string: an integer below
  \<open>2^53\<close> is written in decimal, digit for digit. Every other finite number is rendered
  by the parameter \<open>sci\<close> of the host.
\<close>

fun dec :: "nat \<Rightarrow> jsstring" where
  "dec n = (if n < 10 then [0x30 + n] else dec (n div 10) @ [0x30 + n mod 10])"

declare dec.simps [simp del]

definition NumberToString :: "host \<Rightarrow> jsnum \<Rightarrow> jsstring" where
  "NumberToString H v =
    (case v of
       NaN \<Rightarrow> ustr ''NaN''
     | PInf \<Rightarrow> ustr ''Infinity''
     | NInf \<Rightarrow> ustr ''-Infinity''
     | Fin q \<Rightarrow>
         if of_int \<lfloor>q\<rfloor> = q \<and> \<bar>q\<bar> < 2 ^ 53
         then (if q < 0 then ustr ''-'' else []) @ dec (nat \<bar>\<lfloor>q\<rfloor>\<bar>)
         else sci H q)"

text \<open>
  \<open>x.toFixed(f)\<close> for \<open>f\<close> from 0 to 20: the sign, then the integer \<open>n\<close> nearest to
  \<open>\<bar>x\<bar> * 10^f\<close> (the larger one on a tie) written in decimal, filled with zeros on the
  left to \<open>f + 1\<close> digits, with the point before the last \<open>f\<close> digits. From \<open>10^21\<close> on
  the number is rendered as by \<open>NumberToString\<close>.
\<close>

definition fixed_digits :: "nat \<Rightarrow> rat \<Rightarrow> jsstring" where
  "fixed_digits f q =
    (let n = nat \<lfloor>q * 10 ^ f + 1/2\<rfloor>;
         m = dec n;
         m = (if f \<noteq> 0 \<and> length m \<le> f
              then replicate (f + 1 - length m) 0x30 @ m else m)
     in if f \<noteq> 0
        then take (length m - f) m @ ustr ''.'' @ drop (length m - f) m
        else m)"

definition toFixed :: "host \<Rightarrow> nat \<Rightarrow> jsnum \<Rightarrow> jsstring" where
  "toFixed H f x0 =
    (if x0 = NaN then ustr ''NaN''
     else let s = (if jsless x0 (Fin 0) then ustr ''-'' else []);
              x = (if jsless x0 (Fin 0) then jsneg x0 else x0)
          in case x of
               Fin q \<Rightarrow>
                 if 10 ^ 21 \<le> q then s @ NumberToString H x
                 else s @ fixed_digits f q
             | _ \<Rightarrow> s @ NumberToString H x)"

section \<open>The preferences\<close>

text \<open>
  The two global variables of \<open>coco.js\<close>. They hold strings (\<open>"true"\<close>, \<open>"false"\<close>, or
  whatever was read from the local storage) and are compared with \<open>"true"\<close>.
\<close>

record prefs =
  isHexSharp :: jsstring
  isCMYKPercent :: jsstring

text \<open>Two settings of the preferences: both switched off (the initial values), both switched on.\<close>

definition prefs_off :: prefs where
  "prefs_off = \<lparr>isHexSharp = ustr ''false'', isCMYKPercent = ustr ''false''\<rparr>"

definition prefs_on :: prefs where
  "prefs_on = \<lparr>isHexSharp = ustr ''true'', isCMYKPercent = ustr ''true''\<rparr>"

section \<open>Validation\<close>

definition HEX_NOT_VALID :: jsval where
  "HEX_NOT_VALID = Num (Fin (- 1))"

text \<open>
  \<open>makeValidRgb\<close> takes any value. \<open>isNaN\<close> and the two comparisons with a number convert
  it to a number first; a value that passes all three tests is returned as it is.
\<close>

definition makeValidRgb :: "host \<Rightarrow> jsval \<Rightarrow> error + jsval" where
  "makeValidRgb H v =
    (case ToNumber H v of
       Inl e \<Rightarrow> Inl e
     | Inr n \<Rightarrow>
         if isNaN n \<or> jsless n (Fin 0) then Inr (Num (Fin 0))
         else if jsless (Fin 255) n then Inr (Num (Fin 255))
         else Inr v)"

text \<open>The character class \<open>[0-9ABCEDF]\<close> of the regular expression.\<close>

definition hexclass :: "nat \<Rightarrow> bool" where
  "hexclass c = ((0x30 \<le> c \<and> c \<le> 0x39) \<or> c \<in> {0x41, 0x42, 0x43, 0x45, 0x44, 0x46})"

text \<open>
  \<open>new RegExp("[0-9ABCEDF]{6}").test(s)\<close>: the expression has no anchors, so the test
  succeeds when six characters of the class stand in a row anywhere in \<open>s\<close>.
\<close>

fun regExp_test :: "jsstring \<Rightarrow> bool" where
  "regExp_test [] = False"
| "regExp_test (c # cs) =
     (if 6 \<le> length (c # cs) \<and> list_all hexclass (take 6 (c # cs)) then True
      else regExp_test cs)"

definition makeValidHex :: "host \<Rightarrow> jsstring \<Rightarrow> jsval" where
  "makeValidHex H v =
    (let v1 = (if charAt v (Fin 0) = ustr ''#'' then substr v 1 6
               else if 6 < length v then substr v 0 6
               else v);
         l = length v1
     in if l \<noteq> 3 \<and> l \<noteq> 6 then HEX_NOT_VALID
        else let v2 = (if l = 3
                       then charAt v1 (Fin 0) @ charAt v1 (Fin 0) @ charAt v1 (Fin 1)
                            @ charAt v1 (Fin 1) @ charAt v1 (Fin 2) @ charAt v1 (Fin 2)
                       else v1);
                 v3 = toUpperCase H v2
             in if \<not> regExp_test v3 then HEX_NOT_VALID else Str v3)"

section \<open>Conversion\<close>

text \<open>An array that a function builds and returns is the list of its elements.\<close>

definition rgb2cmyk :: "jsnum \<Rightarrow> jsnum \<Rightarrow> jsnum \<Rightarrow> jsnum list" where
  "rgb2cmyk iR iG iB =
    (let fC = jssub (Fin 1) (jsdiv iR (Fin 255));
         fM = jssub (Fin 1) (jsdiv iG (Fin 255));
         fY = jssub (Fin 1) (jsdiv iB (Fin 255));
         fK = Fin 1;
         fK = Math_min fK (Math_min fC (Math_min fM fY))
     in if jseq fK (Fin 1) then [Fin 0, Fin 0, Fin 0, fK]
        else [jsdiv (jssub fC fK) (jssub (Fin 1) fK),
              jsdiv (jssub fM fK) (jssub (Fin 1) fK),
              jsdiv (jssub fY fK) (jssub (Fin 1) fK),
              fK])"

definition cmyk2rgb :: "jsnum \<Rightarrow> jsnum \<Rightarrow> jsnum \<Rightarrow> jsnum \<Rightarrow> jsnum list" where
  "cmyk2rgb fC fM fY fK =
    (let fC = jsadd (jsmul fC (jssub (Fin 1) fK)) fK;
         fM = jsadd (jsmul fM (jssub (Fin 1) fK)) fK;
         fY = jsadd (jsmul fY (jssub (Fin 1) fK)) fK;
         iR = Math_round (jsmul (jssub (Fin 1) fC) (Fin 255));
         iG = Math_round (jsmul (jssub (Fin 1) fM) (Fin 255));
         iB = Math_round (jsmul (jssub (Fin 1) fY) (Fin 255))
     in [iR, iG, iB])"

definition rgb2hex :: "prefs \<Rightarrow> jsnum \<Rightarrow> jsnum \<Rightarrow> jsnum \<Rightarrow> jsstring" where
  "rgb2hex p iR iG iB =
    (let hex = ustr ''0123456789ABCDEF'';
         v = charAt hex (jsdiv (jssub iR (jsrem iR (Fin 16))) (Fin 16))
             @ charAt hex (jsrem iR (Fin 16));
         v = v @ (charAt hex (jsdiv (jssub iG (jsrem iG (Fin 16))) (Fin 16))
                  @ charAt hex (jsrem iG (Fin 16)));
         v = v @ (charAt hex (jsdiv (jssub iB (jsrem iB (Fin 16))) (Fin 16))
                  @ charAt hex (jsrem iB (Fin 16)))
     in if isHexSharp p = ustr ''true'' then ustr ''#'' @ v else v)"

definition hex2rgb :: "jsstring \<Rightarrow> jsnum list" where
  "hex2rgb sHEX =
    (let sR = substr sHEX 0 2;
         sG = substr sHEX 2 2;
         sB = substr sHEX 4 2
     in [parseInt sR 16, parseInt sG 16, parseInt sB 16])"

section \<open>Formatting\<close>

text \<open>
  \<open>formatCmykOutput\<close> writes into the array it is given. The arrays live in a store, and a
  variable holds the reference of its array. The multiplication converts an element to a
  number and raises a TypeError where that fails; \<open>toFixed\<close> exists on numbers only, and
  calling it on any other element raises a TypeError.
\<close>

type_synonym ref = nat
type_synonym heap = "ref \<Rightarrow> jsval list"

function percent_loop :: "host \<Rightarrow> heap \<Rightarrow> ref \<Rightarrow> nat \<Rightarrow> error + heap" where
  "percent_loop H h aCMYK i =
    (if i < length (h aCMYK)
     then (case ToNumber H (h aCMYK ! i) of
             Inl e \<Rightarrow> Inl e
           | Inr x \<Rightarrow>
               percent_loop H
                 (h(aCMYK := (h aCMYK)[i :=
                    Str (NumberToString H (Math_round (jsmul x (Fin 100))) @ ustr '' %'')]))
                 aCMYK (Suc i))
     else Inr h)"
  by pat_completeness auto
termination
  by (relation "measure (\<lambda>(H, h, a, i). length (h a) - i)") auto

function fixed_loop :: "host \<Rightarrow> heap \<Rightarrow> ref \<Rightarrow> nat \<Rightarrow> error + heap" where
  "fixed_loop H h aCMYK i =
    (if i < length (h aCMYK)
     then (case h aCMYK ! i of
             Num x \<Rightarrow> fixed_loop H (h(aCMYK := (h aCMYK)[i := Str (toFixed H 3 x)])) aCMYK (Suc i)
           | _ \<Rightarrow> Inl TypeError)
     else Inr h)"
  by pat_completeness auto
termination
  by (relation "measure (\<lambda>(H, h, a, i). length (h a) - i)") auto

declare percent_loop.simps [simp del] fixed_loop.simps [simp del]

definition formatCmykOutput :: "host \<Rightarrow> prefs \<Rightarrow> heap \<Rightarrow> ref \<Rightarrow> error + ref \<times> heap" where
  "formatCmykOutput H p h aCMYK =
    (if isCMYKPercent p = ustr ''true''
     then (case percent_loop H h aCMYK 0 of
             Inl e \<Rightarrow> Inl e
           | Inr h' \<Rightarrow> Inr (aCMYK, h'))
     else (case fixed_loop H h aCMYK 0 of
             Inl e \<Rightarrow> Inl e
           | Inr h' \<Rightarrow> Inr (aCMYK, h')))"

text \<open>
  Values for the examples: a host whose functions are never reached by them, and a store
  whose array 0 holds the CMYK values 0.5, 0.25, 1 and 0.
\<close>

definition demo_host :: host where
  "demo_host = \<lparr>sci = (\<lambda>_. []), StringToNumber = (\<lambda>_. NaN), UnicodeUpperCase = (\<lambda>s. s)\<rparr>"

definition demo_heap :: heap where
  "demo_heap = (\<lambda>_. [])(0 := map Num [Fin (1/2), Fin (1/4), Fin 1, Fin 0])"

section \<open>The specification's hex normalization\<close>

text \<open>
  The six steps the specification gives for \<open>validateAndNormalizeHex\<close>, written from its
  words and not from the code: strip a leading \<open>#\<close> and take up to six of the remaining
  characters, or else cut to six characters; reject a length other than 3 and 6; double
  each character of a short string; turn to upper case; reject any character outside
  \<open>0-9A-F\<close>. \<open>None\<close> stands for \<open>Invalid\<close>.
\<close>

definition spec_clean :: "jsstring \<Rightarrow> jsstring" where
  "spec_clean s = (case s of [] \<Rightarrow> [] | c # r \<Rightarrow> if c = 0x23 then take 6 r else take 6 s)"

definition spec_hexchar :: "nat \<Rightarrow> bool" where
  "spec_hexchar c = ((0x30 \<le> c \<and> c \<le> 0x39) \<or> (0x41 \<le> c \<and> c \<le> 0x46))"

definition spec_validateAndNormalizeHex :: "host \<Rightarrow> jsstring \<Rightarrow> jsstring option" where
  "spec_validateAndNormalizeHex H s =
    (let c = spec_clean s
     in if length c \<noteq> 3 \<and> length c \<noteq> 6 then None
        else let e = (if length c = 3 then concat (map (\<lambda>x. [x, x]) c) else c);
                 u = toUpperCase H e
             in if list_all spec_hexchar u then Some u else None)"

section \<open>The specification's hexadecimal notation\<close>

text \<open>
  The notation the specification asks of \<open>rgb2hex\<close>, written from its words and not from
  the code: a channel is two upper-case hexadecimal digits, the high one first.
\<close>

definition spec_hexdigit :: "int \<Rightarrow> nat" where
  "spec_hexdigit d = (if d < 10 then 0x30 + nat d else 0x41 + nat (d - 10))"

definition spec_hex2 :: "int \<Rightarrow> jsstring" where
  "spec_hex2 n = [spec_hexdigit (n div 16), spec_hexdigit (n mod 16)]"

section \<open>The specification's rounding\<close>

text \<open>
  What the specification asks of \<open>cmykToRgb\<close> and of the percent format, written from its
  words in exact arithmetic and not from the code: \<open>c2 = c * (1 - k) + k\<close> and the channel
  \<open>round ((1 - c2) * 255)\<close>, where \<open>round\<close> is the nearest integer, a tie going up.
\<close>

definition spec_round :: "rat \<Rightarrow> int" where
  "spec_round x = \<lfloor>x + 1/2\<rfloor>"

definition spec_channel :: "rat \<Rightarrow> rat \<Rightarrow> rat" where
  "spec_channel c k = (1 - (c * (1 - k) + k)) * 255"

text \<open>A second store for the examples; its array 0 holds 0.125, 0.3125, 0.875 and 1.\<close>

definition demo_heap_eighths :: heap where
  "demo_heap_eighths = (\<lambda>_. [])(0 := map Num [Fin (1/8), Fin (5/16), Fin (7/8), Fin 1])"

section \<open>Rounding to double precision\<close>

lemma rne_err: "\<bar>of_int (rne x) - x\<bar> \<le> 1/2"
proof -
  have "of_int \<lfloor>x\<rfloor> \<le> x" "x < of_int \<lfloor>x\<rfloor> + 1" by linarith+
  then show ?thesis by (auto simp: rne_def Let_def)
qed

lemma rne_of_int: "rne (of_int k) = k"
  by (simp add: rne_def)

lemma ilog2_le:
  assumes "0 < x"
  shows "2 powi (ilog2 x) \<le> x"
proof -
  obtain p q where pq: "quotient_of x = (p, q)" by (cases "quotient_of x")
  have q: "0 < q" using pq quotient_of_denom_pos by blast
  have x: "x = of_int p / of_int q" using pq quotient_of_div by blast
  have p: "0 < p" using assms q x by (simp add: zero_less_divide_iff)
  let ?d = "bitlen p - bitlen q"
  show ?thesis
  proof (cases "2 powi ?d \<le> x")
    case True
    then show ?thesis by (simp add: ilog2_def pq Let_def)
  next
    case False
    then have il: "ilog2 x = ?d - 1" by (simp add: ilog2_def pq Let_def)
    have bp: "2 ^ nat (bitlen p - 1) \<le> p" and bq: "q < 2 ^ nat (bitlen q)"
      using bitlen_bounds[OF p] bitlen_bounds[OF q] by auto
    have bp1: "1 \<le> bitlen p" using p bitlen_eq_zero_iff[of p] bitlen_nonneg[of p] by linarith
    have bq1: "0 \<le> bitlen q" by (rule bitlen_nonneg)
    have P: "(2::rat) powi (bitlen p - 1) \<le> of_int p"
    proof -
      have "(of_int (2 ^ nat (bitlen p - 1)) :: rat) \<le> of_int p" using bp by (simp only: of_int_le_iff)
      then show ?thesis using bp1 by (simp add: power_int_def)
    qed
    have Q: "(of_int q :: rat) \<le> 2 powi (bitlen q)"
    proof -
      have "(of_int q :: rat) \<le> of_int (2 ^ nat (bitlen q))" using bq by (simp only: of_int_le_iff)
      then show ?thesis using bq1 by (simp add: power_int_def)
    qed
    have "(2::rat) powi (?d - 1) = 2 powi (bitlen p - 1) / 2 powi (bitlen q)"
      by (simp add: power_int_diff)
    also have "\<dots> \<le> of_int p / 2 powi (bitlen q)"
      using P by (simp add: divide_right_mono)
    also have "\<dots> \<le> of_int p / of_int q"
      using Q p q by (simp add: divide_left_mono)
    finally have "(2::rat) powi (?d - 1) \<le> x" by (simp only: x)
    then show ?thesis by (simp only: il)
  qed
qed

lemma ilog2_less:
  assumes "0 < x" "x < 2 powi n"
  shows "ilog2 x < n"
proof (rule ccontr)
  assume "\<not> ilog2 x < n"
  then have "n \<le> ilog2 x" by simp
  then have "(2::rat) powi n \<le> 2 powi (ilog2 x)" by (simp add: power_int_increasing)
  with ilog2_le[OF assms(1)] assms(2) show False by linarith
qed


lemma ilog2_upper:
  assumes "0 < x"
  shows "x < 2 powi (ilog2 x + 1)"
proof -
  obtain p q where pq: "quotient_of x = (p, q)" by (cases "quotient_of x")
  have q: "0 < q" using pq quotient_of_denom_pos by blast
  have x: "x = of_int p / of_int q" using pq quotient_of_div by blast
  have p: "0 < p" using assms q x by (simp add: zero_less_divide_iff)
  let ?d = "bitlen p - bitlen q"
  show ?thesis
  proof (cases "2 powi ?d \<le> x")
    case True
    then have il: "ilog2 x = ?d" by (simp add: ilog2_def pq Let_def)
    have bp: "p < 2 ^ nat (bitlen p)" and bq: "2 ^ nat (bitlen q - 1) \<le> q"
      using bitlen_bounds[OF p] bitlen_bounds[OF q] by auto
    have bp0: "0 \<le> bitlen p" by (rule bitlen_nonneg)
    have bq1: "1 \<le> bitlen q" using q bitlen_eq_zero_iff[of q] bitlen_nonneg[of q] by linarith
    have P: "(of_int p :: rat) < 2 powi (bitlen p)"
    proof -
      have "(of_int p :: rat) < of_int (2 ^ nat (bitlen p))" using bp by (simp only: of_int_less_iff)
      then show ?thesis using bp0 by (simp add: power_int_def)
    qed
    have Q: "(2::rat) powi (bitlen q - 1) \<le> of_int q"
    proof -
      have "(of_int (2 ^ nat (bitlen q - 1)) :: rat) \<le> of_int q" using bq by (simp only: of_int_le_iff)
      then show ?thesis using bq1 by (simp add: power_int_def)
    qed
    have "of_int p / of_int q \<le> of_int p / (2::rat) powi (bitlen q - 1)"
      using Q p q by (intro divide_left_mono) simp_all
    also have "\<dots> < 2 powi (bitlen p) / 2 powi (bitlen q - 1)"
      using P by (intro divide_strict_right_mono) simp_all
    also have "\<dots> = 2 powi (?d + 1)"
    proof -
      have e: "?d + 1 = bitlen p - (bitlen q - 1)" by simp
      show ?thesis unfolding e by (rule power_int_diff[symmetric]) simp
    qed
    finally have "x < 2 powi (?d + 1)" by (simp only: x)
    then show ?thesis by (simp only: il)
  next
    case False
    then have il: "ilog2 x = ?d - 1" by (simp add: ilog2_def pq Let_def)
    from False show ?thesis by (simp add: il)
  qed
qed

lemma fl_zero [simp]: "fl 0 = Fin 0"
  by (simp add: fl_def)

lemma fl_close:
  assumes "\<bar>x\<bar> < 2 ^ n" "n \<le> 1023"
  shows "\<exists>y. fl x = Fin y \<and> \<bar>y - x\<bar> \<le> 2 ^ n / 2 ^ 54"
proof (cases "x = 0")
  case True
  then show ?thesis by simp
next
  case False
  define e where "e = max (ilog2 \<bar>x\<bar> - 52) (- 1074)"
  define m where "m = rne (\<bar>x\<bar> / 2 powi e)"
  define y where "y = (of_int m :: rat) * 2 powi e"
  have ax: "0 < \<bar>x\<bar>" using False by simp
  have "\<bar>x\<bar> < 2 powi (int n)" using assms(1) by simp
  then have "ilog2 \<bar>x\<bar> < int n" using ilog2_less[OF ax] by blast
  then have e_le: "e \<le> int n - 53" by (simp add: e_def)
  have pe: "(0::rat) < 2 powi e" by simp
  have "\<bar>of_int m - \<bar>x\<bar> / 2 powi e\<bar> \<le> 1/2" unfolding m_def by (rule rne_err)
  then have "\<bar>of_int m - \<bar>x\<bar> / 2 powi e\<bar> * 2 powi e \<le> 1/2 * 2 powi e"
    using pe by (simp add: mult_right_mono)
  moreover have "\<bar>of_int m - \<bar>x\<bar> / 2 powi e\<bar> * 2 powi e = \<bar>y - \<bar>x\<bar>\<bar>"
  proof -
    have "\<bar>of_int m - \<bar>x\<bar> / 2 powi e\<bar> * 2 powi e = \<bar>(of_int m - \<bar>x\<bar> / 2 powi e) * 2 powi e\<bar>"
      by (simp add: abs_mult)
    also have "(of_int m - \<bar>x\<bar> / 2 powi e) * 2 powi e = y - \<bar>x\<bar>"
      by (simp add: y_def algebra_simps)
    finally show ?thesis .
  qed
  ultimately have d1: "\<bar>y - \<bar>x\<bar>\<bar> \<le> 1/2 * 2 powi e" by simp
  have "(2::rat) powi e \<le> 2 powi (int n - 53)" using e_le by (simp add: power_int_increasing)
  also have "\<dots> = 2 ^ n / 2 ^ 53" by (simp add: power_int_diff)
  finally have d2: "\<bar>y - \<bar>x\<bar>\<bar> \<le> 2 ^ n / 2 ^ 54" using d1 by simp
  have "(2::rat) ^ n / 2 ^ 54 \<le> 2 ^ n" by (simp add: divide_le_eq)
  then have "y < 2 ^ n + 2 ^ n" using d2 assms(1) by linarith
  also have "\<dots> = (2::rat) ^ (Suc n)" by simp
  also have "\<dots> \<le> 2 ^ 1024" using assms(2) by (intro power_increasing) auto
  finally have nov: "\<not> 2 powi 1024 \<le> y" by simp
  have flx: "fl x = Fin (sgn x * y)"
    using False nov by (simp add: fl_def Let_def e_def[symmetric] m_def[symmetric] y_def[symmetric])
  have "sgn x * (y - \<bar>x\<bar>) = sgn x * y - sgn x * \<bar>x\<bar>"
    by (rule right_diff_distrib)
  also have "sgn x * \<bar>x\<bar> = x" by (rule mult_sgn_abs)
  finally have "\<bar>sgn x * y - x\<bar> = \<bar>sgn x * (y - \<bar>x\<bar>)\<bar>" by simp
  also have "\<dots> = \<bar>sgn x\<bar> * \<bar>y - \<bar>x\<bar>\<bar>" by (rule abs_mult)
  also have "\<dots> = \<bar>y - \<bar>x\<bar>\<bar>" using False by (simp add: abs_sgn_eq)
  finally show ?thesis using d2 flx by simp
qed

lemma fl_of_int:
  assumes "\<bar>k\<bar> < 2 ^ 53"
  shows "fl (of_int k) = Fin (of_int k)"
proof (cases "k = 0")
  case True
  then show ?thesis by simp
next
  case False
  define x :: rat where "x = of_int k"
  define e where "e = max (ilog2 \<bar>x\<bar> - 52) (- 1074)"
  have ax: "0 < \<bar>x\<bar>" using False by (simp add: x_def)
  have "\<bar>x\<bar> < 2 ^ 53" using assms unfolding x_def
    by (metis of_int_abs of_int_less_iff of_int_numeral of_int_power)
  then have "\<bar>x\<bar> < 2 powi 53" by simp
  then have "ilog2 \<bar>x\<bar> < 53" using ilog2_less[OF ax] by blast
  then have e0: "e \<le> 0" by (simp add: e_def)
  have pw: "(2::rat) powi e = 1 / 2 ^ nat (- e)"
    using e0 by (simp add: power_int_def field_simps)
  have "\<bar>x\<bar> / 2 powi e = of_int (\<bar>k\<bar> * 2 ^ nat (- e))"
    by (simp add: pw x_def)
  then have "rne (\<bar>x\<bar> / 2 powi e) = \<bar>k\<bar> * 2 ^ nat (- e)"
    by (simp only: rne_of_int)
  then have y: "of_int (rne (\<bar>x\<bar> / 2 powi e)) * 2 powi e = \<bar>x\<bar>"
    by (simp add: pw x_def)
  have "(2::rat) ^ 53 \<le> 2 ^ 1024" by (intro power_increasing) auto
  then have "\<bar>x\<bar> < 2 ^ 1024" using \<open>\<bar>x\<bar> < 2 ^ 53\<close> by linarith
  then have "\<not> 2 powi 1024 \<le> \<bar>x\<bar>" by simp
  then have "fl x = Fin (sgn x * \<bar>x\<bar>)"
    using ax by (simp add: fl_def Let_def e_def[symmetric] y)
  then show ?thesis by (simp only: mult_sgn_abs x_def)
qed

text \<open>A number with at most 53 significant bits and no bit below \<open>2 powi (-1074)\<close> is a double.\<close>

lemma fl_dyadic:
  assumes "\<bar>k\<bar> < 2 ^ 53" "n \<le> 1074"
  shows "fl (of_int k / 2 ^ n) = Fin (of_int k / 2 ^ n)"
proof (cases "k = 0")
  case True
  then show ?thesis by simp
next
  case False
  define x :: rat where "x = of_int k / 2 ^ n"
  define e where "e = max (ilog2 \<bar>x\<bar> - 52) (- 1074)"
  have ak: "\<bar>x\<bar> = of_int \<bar>k\<bar> / 2 ^ n" by (simp add: x_def)
  have ax: "0 < \<bar>x\<bar>" using False by (simp add: x_def)
  have "(of_int \<bar>k\<bar> :: rat) < of_int (2 ^ 53)" using assms(1) by (simp only: of_int_less_iff)
  then have k53: "(of_int \<bar>k\<bar> :: rat) < 2 ^ 53" by simp
  then have "\<bar>x\<bar> < 2 ^ 53 / 2 ^ n" unfolding ak by (simp add: divide_strict_right_mono)
  also have "\<dots> = 2 powi (53 - int n)" by (simp add: power_int_diff)
  finally have "ilog2 \<bar>x\<bar> < 53 - int n" using ilog2_less[OF ax] by blast
  then have e0: "e \<le> - int n" using assms(2) by (simp add: e_def)
  define j where "j = nat (- int n - e)"
  have pw: "(2::rat) powi e = 1 / (2 ^ n * 2 ^ j)"
  proof -
    have "e = - int (n + j)" using e0 by (simp add: j_def)
    then have "(2::rat) powi e = 2 powi (- int (n + j))" by simp
    also have "\<dots> = 1 / 2 ^ (n + j)"
      by (simp only: power_int_minus power_int_of_nat inverse_eq_divide)
    finally show ?thesis by (simp add: power_add)
  qed
  have "\<bar>x\<bar> / 2 powi e = of_int (\<bar>k\<bar> * 2 ^ j)"
    unfolding ak pw by simp
  then have "rne (\<bar>x\<bar> / 2 powi e) = \<bar>k\<bar> * 2 ^ j"
    by (simp only: rne_of_int)
  then have y: "of_int (rne (\<bar>x\<bar> / 2 powi e)) * 2 powi e = \<bar>x\<bar>"
    unfolding ak pw by simp
  have "(1::rat) \<le> 2 ^ n" by simp
  then have "(of_int \<bar>k\<bar> :: rat) * 1 \<le> of_int \<bar>k\<bar> * 2 ^ n"
    by (intro mult_left_mono) simp_all
  then have "\<bar>x\<bar> \<le> of_int \<bar>k\<bar>" unfolding ak by (simp add: divide_le_eq)
  moreover have "(2::rat) ^ 53 \<le> 2 ^ 1024" by (intro power_increasing) auto
  ultimately have "\<bar>x\<bar> < 2 ^ 1024" using k53 by linarith
  then have "\<not> 2 powi 1024 \<le> \<bar>x\<bar>" by simp
  then have "fl x = Fin (sgn x * \<bar>x\<bar>)"
    using ax by (simp add: fl_def Let_def e_def[symmetric] y)
  then show ?thesis by (simp only: mult_sgn_abs x_def)
qed

section \<open>Clamping an RGB channel\<close>

lemma makeValidRgb_Num:
  "makeValidRgb H (Num v) =
     Inr (Num (if isNaN v \<or> jsless v (Fin 0) then Fin 0
               else if jsless (Fin 255) v then Fin 255 else v))"
  by (simp add: makeValidRgb_def ToNumber_def)

text \<open>
  C4, as stated, speaks of every input and says that every input that is not a number
  gives 0. The code tests \<open>isNaN(value)\<close> and compares \<open>value\<close> with 0 and 255, all of which
  convert the value to a number first: \<open>null\<close> counts as 0 and \<open>true\<close> as 1, pass the three
  tests and are returned as they are, and a BigInt or a symbol makes \<open>isNaN\<close> raise a
  TypeError.
\<close>

theorem makeValidRgb_non_number_counterexample:
  "makeValidRgb demo_host Null = Inr Null
   \<and> makeValidRgb demo_host (Bool True) = Inr (Bool True)
   \<and> makeValidRgb demo_host (BigInt 7) = Inl TypeError
   \<and> makeValidRgb demo_host Symbol = Inl TypeError"
  by (simp add: makeValidRgb_def ToNumber_def isNaN_def)

text \<open>
  C4, amended. On every number (NaN and the two infinities included), which is what the
  callers pass, \<open>makeValidRgb\<close> signals no error and returns a number between 0 and 255:
  0 when the input is NaN or below 0, 255 when it is above 255, and the input itself when
  it lies between 0 and 255.
\<close>

theorem makeValidRgb_clamps:
  "(\<exists>q. makeValidRgb H (Num v) = Inr (Num (Fin q)) \<and> 0 \<le> q \<and> q \<le> 255)
   \<and> (isNaN v \<or> jsless v (Fin 0) \<longrightarrow> makeValidRgb H (Num v) = Inr (Num (Fin 0)))
   \<and> (jsless (Fin 255) v \<longrightarrow> makeValidRgb H (Num v) = Inr (Num (Fin 255)))
   \<and> (\<not> isNaN v \<and> \<not> jsless v (Fin 0) \<and> \<not> jsless (Fin 255) v \<longrightarrow>
        makeValidRgb H (Num v) = Inr (Num v))
   \<and> makeValidRgb H (Num NaN) = Inr (Num (Fin 0))
   \<and> makeValidRgb H (Num (Fin q)) =
        Inr (Num (Fin (if q < 0 then 0 else if 255 < q then 255 else q)))"
  by (cases v) (auto simp: makeValidRgb_Num isNaN_def)

theorem makeValidRgb_clamps_witness:
  "makeValidRgb demo_host (Num NaN) = Inr (Num (Fin 0))
   \<and> makeValidRgb demo_host (Num (Fin (- 7))) = Inr (Num (Fin 0))
   \<and> makeValidRgb demo_host (Num NInf) = Inr (Num (Fin 0))
   \<and> makeValidRgb demo_host (Num PInf) = Inr (Num (Fin 255))
   \<and> makeValidRgb demo_host (Num (Fin 300)) = Inr (Num (Fin 255))
   \<and> makeValidRgb demo_host (Num (Fin 128)) = Inr (Num (Fin 128))"
  using makeValidRgb_clamps [of demo_host NaN 0] makeValidRgb_clamps [of demo_host "Fin (- 7)" 0]
    makeValidRgb_clamps [of demo_host NInf 0] makeValidRgb_clamps [of demo_host PInf 0]
    makeValidRgb_clamps [of demo_host "Fin 300" 0] makeValidRgb_clamps [of demo_host "Fin 128" 0]
  by (simp add: isNaN_def)

section \<open>RGB and HEX\<close>

lemma trunc_of_int [simp]: "trunc (of_int k) = k"
  by (simp add: trunc_def)

lemma fl_small_int: "0 \<le> k \<Longrightarrow> k \<le> 255 \<Longrightarrow> fl (of_int k) = Fin (of_int k)"
  by (rule fl_of_int) simp

lemma jsrem_16:
  assumes "0 \<le> r"
  shows "jsrem (Fin (of_int r)) (Fin 16) = Fin (of_int (r mod 16))"
proof -
  have "(of_int r :: rat) / 16 = of_int r / of_int 16" by simp
  then have "\<lfloor>(of_int r :: rat) / 16\<rfloor> = r div 16"
    by (simp only: floor_divide_of_int_eq)
  moreover have "\<not> (of_int r :: rat) / 16 < 0" using assms by simp
  ultimately have "trunc (of_int r / 16) = r div 16" by (simp add: trunc_def)
  moreover have "(of_int r :: rat) - 16 * of_int (r div 16) = of_int (r mod 16)"
  proof -
    have "(of_int (r - 16 * (r div 16)) :: rat) = of_int (r mod 16)"
      by (simp only: minus_mult_div_eq_mod)
    then show ?thesis by simp
  qed
  ultimately show ?thesis by simp
qed

lemma high_digit:
  assumes "0 \<le> r" "r \<le> 255"
  shows "jsdiv (jssub (Fin (of_int r)) (jsrem (Fin (of_int r)) (Fin 16))) (Fin 16)
         = Fin (of_int (r div 16))"
proof -
  have m: "0 \<le> r mod 16" "r mod 16 \<le> r" using assms by (simp_all add: zmod_le_nonneg_dividend)
  have "jssub (Fin (of_int r)) (jsrem (Fin (of_int r)) (Fin 16)) = fl (of_int (r - r mod 16))"
    using assms by (simp add: jsrem_16 jssub_def del: jsrem.simps)
  also have "\<dots> = Fin (of_int (r - r mod 16))"
    using m assms by (intro fl_small_int) auto
  finally have s: "jssub (Fin (of_int r)) (jsrem (Fin (of_int r)) (Fin 16)) = Fin (of_int (r - r mod 16))" .
  have "(of_int (r - r mod 16) :: rat) / 16 = of_int (r div 16)"
  proof -
    have "r - r mod 16 = 16 * (r div 16)" by (simp add: minus_mod_eq_mult_div)
    then show ?thesis by simp
  qed
  moreover have "fl (of_int (r div 16)) = Fin (of_int (r div 16))"
    using assms by (intro fl_small_int) auto
  ultimately show ?thesis unfolding s by simp
qed

lemma hex_nth:
  assumes "0 \<le> d" "d < 16"
  shows "charAt (ustr ''0123456789ABCDEF'') (Fin (of_int d)) = [spec_hexdigit d]"
proof -
  have "d = 0 \<or> d = 1 \<or> d = 2 \<or> d = 3 \<or> d = 4 \<or> d = 5 \<or> d = 6 \<or> d = 7 \<or> d = 8
        \<or> d = 9 \<or> d = 10 \<or> d = 11 \<or> d = 12 \<or> d = 13 \<or> d = 14 \<or> d = 15"
    using assms by arith
  then show ?thesis
    by (elim disjE) (simp_all add: ustr_def spec_hexdigit_def trunc_def)
qed

lemma channel_hex:
  assumes "0 \<le> r" "r \<le> 255"
  shows "charAt (ustr ''0123456789ABCDEF'')
           (jsdiv (jssub (Fin (of_int r)) (jsrem (Fin (of_int r)) (Fin 16))) (Fin 16))
         @ charAt (ustr ''0123456789ABCDEF'') (jsrem (Fin (of_int r)) (Fin 16))
         = spec_hex2 r"
proof -
  have "0 \<le> r div 16" "r div 16 < 16" "0 \<le> r mod 16" "r mod 16 < 16" using assms by auto
  then show ?thesis
    by (simp only: high_digit[OF assms])
       (simp only: jsrem_16[OF assms(1)] hex_nth spec_hex2_def append.simps)
qed

lemma rgb2hex_digits:
  assumes "0 \<le> r" "r \<le> 255" "0 \<le> g" "g \<le> 255" "0 \<le> b" "b \<le> 255"
  shows "rgb2hex p (Fin (of_int r)) (Fin (of_int g)) (Fin (of_int b))
         = (if isHexSharp p = ustr ''true'' then ustr ''#'' else [])
           @ spec_hex2 r @ spec_hex2 g @ spec_hex2 b"
  unfolding rgb2hex_def Let_def
  by (simp only: channel_hex[OF assms(1,2)] channel_hex[OF assms(3,4)] channel_hex[OF assms(5,6)])
     simp

lemma spec_hexdigit_props:
  assumes "0 \<le> d" "d < 16"
  shows "\<not> StrWhiteSpaceChar (spec_hexdigit d)" "spec_hexdigit d \<noteq> 0x2D" "spec_hexdigit d \<noteq> 0x2B"
    "spec_hexdigit d \<noteq> 0x78" "spec_hexdigit d \<noteq> 0x58" "digitVal (spec_hexdigit d) = nat d"
  using assms by (auto simp: spec_hexdigit_def StrWhiteSpaceChar_def digitVal_def)

lemma parseInt_hex2:
  assumes "0 \<le> r" "r \<le> 255"
  shows "parseInt (spec_hex2 r) 16 = Fin (of_int r)"
proof -
  have a: "0 \<le> r div 16" "r div 16 < 16" and b: "0 \<le> r mod 16" "r mod 16 < 16"
    using assms by auto
  note A = spec_hexdigit_props[OF a] and B = spec_hexdigit_props[OF b]
  have n: "nat (r div 16) < 16" "nat (r mod 16) < 16" using a b by auto
  define S where "S = spec_hex2 r"
  have S: "S = [spec_hexdigit (r div 16), spec_hexdigit (r mod 16)]"
    by (simp add: S_def spec_hex2_def)
  have 1: "dropWhile StrWhiteSpaceChar S = S" by (simp add: S A)
  have 2: "take 1 S \<noteq> ustr ''-''" "take 1 S \<noteq> ustr ''+''" by (simp_all add: S ustr_def A)
  have 3: "take 2 S \<noteq> ustr ''0x''" "take 2 S \<noteq> ustr ''0X''" by (simp_all add: S ustr_def B)
  have 4: "takeWhile (\<lambda>c. digitVal c < 16) S = S" by (simp add: S A B n)
  have "nat (r div 16) * 16 + nat (r mod 16) = nat r"
    using assms by (simp add: nat_div_distrib nat_mod_distrib)
  then have 5: "foldl (\<lambda>a c. a * 16 + digitVal c) 0 S = nat r" by (simp add: S A B)
  have 6: "S \<noteq> []" by (simp add: S)
  have "(of_nat (nat r) :: rat) = of_int r" using assms by simp
  then have 7: "fl (of_nat (nat r)) = Fin (of_int r)"
    using fl_small_int[OF assms] by simp
  show ?thesis
    unfolding parseInt_def S_def[symmetric] Let_def
    by (simp only: 1 2 3 4 5 6 7 if_False if_True simp_thms)
qed

lemma hex2rgb_digits:
  "hex2rgb (spec_hex2 r @ spec_hex2 g @ spec_hex2 b)
   = [parseInt (spec_hex2 r) 16, parseInt (spec_hex2 g) 16, parseInt (spec_hex2 b) 16]"
  by (simp add: hex2rgb_def substr_def spec_hex2_def)

lemma rgb2hex_example:
  "rgb2hex q (Fin 255) (Fin 0) (Fin 128)
   = (if isHexSharp q = ustr ''true'' then ustr ''#'' else []) @ ustr ''FF0080''"
  using rgb2hex_digits[of 255 0 128 q]
  by (simp add: spec_hex2_def spec_hexdigit_def ustr_def)

lemma isHexSharp_on: "isHexSharp prefs_on = ustr ''true''"
  by (simp add: prefs_on_def)

lemma isHexSharp_off: "isHexSharp prefs_off \<noteq> ustr ''true''"
  by (simp add: prefs_off_def ustr_def)

text \<open>
  C8. For integer channels between 0 and 255, \<open>rgb2hex\<close> writes each channel as two
  upper-case hexadecimal digits, in the order R, G, B, and puts \<open>#\<close> in front exactly when
  the preference \<open>isHexSharp\<close> is \<open>"true"\<close>. For (255, 0, 128) the result is \<open>FF0080\<close>
  with the preference off and \<open>#FF0080\<close> with it on.
\<close>

theorem rgb2hex_two_uppercase_digits:
  "(0 \<le> r \<and> r \<le> 255 \<and> 0 \<le> g \<and> g \<le> 255 \<and> 0 \<le> b \<and> b \<le> 255 \<longrightarrow>
      rgb2hex p (Fin (of_int r)) (Fin (of_int g)) (Fin (of_int b))
      = (if isHexSharp p = ustr ''true'' then ustr ''#'' else [])
        @ spec_hex2 r @ spec_hex2 g @ spec_hex2 b)
   \<and> rgb2hex prefs_off (Fin 255) (Fin 0) (Fin 128) = ustr ''FF0080''
   \<and> rgb2hex prefs_on (Fin 255) (Fin 0) (Fin 128) = ustr ''#FF0080''"
proof -
  have "rgb2hex prefs_off (Fin 255) (Fin 0) (Fin 128) = ustr ''FF0080''"
    by (simp only: rgb2hex_example isHexSharp_off if_False append_Nil)
  moreover have "rgb2hex prefs_on (Fin 255) (Fin 0) (Fin 128) = ustr ''#FF0080''"
    by (simp only: rgb2hex_example isHexSharp_on if_True) (simp add: ustr_def)
  ultimately show ?thesis
    using rgb2hex_digits[of r g b p] by blast
qed

theorem rgb2hex_two_uppercase_digits_witness:
  "rgb2hex prefs_on (Fin 18) (Fin 171) (Fin 9) = ustr ''#12AB09''
   \<and> rgb2hex prefs_off (Fin 18) (Fin 171) (Fin 9) = ustr ''12AB09''"
proof -
  have d: "spec_hex2 18 = ustr ''12''" "spec_hex2 171 = ustr ''AB''" "spec_hex2 9 = ustr ''09''"
    by (simp_all add: spec_hex2_def spec_hexdigit_def ustr_def)
  have on: "rgb2hex prefs_on (Fin 18) (Fin 171) (Fin 9) = ustr ''#'' @ ustr ''12'' @ ustr ''AB'' @ ustr ''09''"
    using rgb2hex_two_uppercase_digits[of 18 171 9 prefs_on]
    by (simp add: isHexSharp_on d)
  have off: "rgb2hex prefs_off (Fin 18) (Fin 171) (Fin 9) = ustr ''12'' @ ustr ''AB'' @ ustr ''09''"
    using rgb2hex_two_uppercase_digits[of 18 171 9 prefs_off]
    by (simp add: isHexSharp_off d)
  show ?thesis
    unfolding on off by (simp add: ustr_def)
qed

text \<open>
  C2, as stated, asks the round trip through \<open>rgb2hex\<close> and \<open>hex2rgb\<close> for every value
  of the preference. With \<open>isHexSharp\<close> set to \<open>"true"\<close> the string starts with \<open>#\<close>, and
  \<open>hex2rgb\<close>, which reads three groups of two characters from the start, gives
  (NaN, 240, 8) for (255, 0, 128).
\<close>

theorem hex_roundtrip_with_prefix_counterexample:
  "hex2rgb (rgb2hex prefs_on (Fin 255) (Fin 0) (Fin 128)) = [NaN, Fin 240, Fin 8]
   \<and> hex2rgb (rgb2hex prefs_on (Fin 255) (Fin 0) (Fin 128)) \<noteq> [Fin 255, Fin 0, Fin 128]"
proof -
  have s: "rgb2hex prefs_on (Fin 255) (Fin 0) (Fin 128) = ustr ''#FF0080''"
    by (simp only: rgb2hex_example isHexSharp_on if_True) (simp add: ustr_def)
  have h: "hex2rgb (ustr ''#FF0080'')
           = [parseInt (ustr ''#F'') 16, parseInt (ustr ''F0'') 16, parseInt (ustr ''08'') 16]"
    by (simp add: hex2rgb_def substr_def ustr_def)
  have 1: "parseInt (ustr ''#F'') 16 = NaN"
    by (simp add: parseInt_def ustr_def StrWhiteSpaceChar_def digitVal_def)
  have 2: "parseInt (ustr ''F0'') 16 = Fin 240"
    using parseInt_hex2[of 240] by (simp add: spec_hex2_def spec_hexdigit_def ustr_def)
  have 3: "parseInt (ustr ''08'') 16 = Fin 8"
    using parseInt_hex2[of 8] by (simp add: spec_hex2_def spec_hexdigit_def ustr_def)
  show ?thesis
    by (simp only: s h 1 2 3) simp
qed

text \<open>
  C2, amended. When the preference \<open>isHexSharp\<close> is not \<open>"true"\<close> (so that no \<open>#\<close> is put
  in front), \<open>hex2rgb (rgb2hex (r, g, b))\<close> is \<open>(r, g, b)\<close> for all integer channels between
  0 and 255.
\<close>

theorem hex_roundtrip_without_prefix:
  assumes "isHexSharp p \<noteq> ustr ''true''"
    and "0 \<le> r" "r \<le> 255" "0 \<le> g" "g \<le> 255" "0 \<le> b" "b \<le> 255"
  shows "hex2rgb (rgb2hex p (Fin (of_int r)) (Fin (of_int g)) (Fin (of_int b)))
         = [Fin (of_int r), Fin (of_int g), Fin (of_int b)]"
proof -
  have "rgb2hex p (Fin (of_int r)) (Fin (of_int g)) (Fin (of_int b))
        = spec_hex2 r @ spec_hex2 g @ spec_hex2 b"
    using assms by (simp add: rgb2hex_digits)
  then show ?thesis
    using assms by (simp only: hex2rgb_digits parseInt_hex2)
qed

theorem hex_roundtrip_without_prefix_witness:
  "isHexSharp prefs_off \<noteq> ustr ''true''
   \<and> hex2rgb (rgb2hex prefs_off (Fin 255) (Fin 0) (Fin 128)) = [Fin 255, Fin 0, Fin 128]"
proof -
  have h: "isHexSharp prefs_off \<noteq> ustr ''true''"
    by (rule isHexSharp_off)
  show ?thesis
    using h hex_roundtrip_without_prefix[OF h, of 255 0 128] by simp
qed

section \<open>RGB and CMYK\<close>

lemma eps_pos: "0 < eps" and eps_small: "eps \<le> 1 / 1000000000"
  by (simp_all add: eps_def)

lemma fl_near:
  assumes "\<bar>x\<bar> < 2"
  obtains y where "fl x = Fin y" "x - eps \<le> y" "y \<le> x + eps"
proof -
  have "\<bar>x\<bar> < 2 ^ 1" using assms by simp
  from fl_close[OF this] obtain y where y: "fl x = Fin y" "\<bar>y - x\<bar> \<le> 2 ^ 1 / 2 ^ 54"
    by auto
  have "(2::rat) ^ 1 / 2 ^ 54 = eps" by (simp add: eps_def)
  then have "\<bar>y - x\<bar> \<le> eps" using y(2) by simp
  then have "x - eps \<le> y" "y \<le> x + eps" by (simp_all add: abs_le_iff) 
  with y(1) that show thesis by blast
qed

lemma fl_near512:
  assumes "\<bar>x\<bar> < 512"
  obtains y where "fl x = Fin y" "x - 256 * eps \<le> y" "y \<le> x + 256 * eps"
proof -
  have "\<bar>x\<bar> < 2 ^ 9" using assms by simp
  from fl_close[OF this] obtain y where y: "fl x = Fin y" "\<bar>y - x\<bar> \<le> 2 ^ 9 / 2 ^ 54"
    by auto
  have "(2::rat) ^ 9 / 2 ^ 54 = 256 * eps" by (simp add: eps_def)
  then have "\<bar>y - x\<bar> \<le> 256 * eps" using y(2) by simp
  then have "x - 256 * eps \<le> y" "y \<le> x + 256 * eps" by (simp_all add: abs_le_iff) 
  with y(1) that show thesis by blast
qed

lemma fl_one [simp]: "fl 1 = Fin 1"
  using fl_of_int[of 1] by simp

lemma jssub_Fin: "jssub (Fin a) (Fin b) = fl (a - b)"
  by (simp add: jssub_def)

lemma Math_min_Fin: "Math_min (Fin a) (Fin b) = Fin (min a b)"
  by (simp add: Math_min_def min_def)

text \<open>The first step of \<open>rgb2cmyk\<close> on one channel: \<open>1 - (i / 255)\<close>.\<close>

lemma complement_channel:
  assumes "0 \<le> r" "r \<le> 255"
  obtains c where "jssub (Fin 1) (jsdiv (Fin (of_int r)) (Fin 255)) = Fin c"
    "1 - of_int r / 255 - 2 * eps \<le> c" "c \<le> 1 - of_int r / 255 + 2 * eps"
    "r = 0 \<Longrightarrow> c = 1"
proof -
  have r: "(0::rat) \<le> of_int r" "(of_int r :: rat) \<le> 255" using assms by simp_all
  then have "\<bar>(of_int r :: rat) / 255\<bar> < 2" by (simp add: abs_if)
  then obtain a where a: "fl (of_int r / 255) = Fin a" "of_int r / 255 - eps \<le> a"
    "a \<le> of_int r / 255 + eps" by (rule fl_near)
  have a0: "r = 0 \<Longrightarrow> a = 0" using a(1) by simp
  have "- 1 \<le> 1 - a" "1 - a \<le> 3/2" using a r eps_small by (simp_all add: field_simps)
  then have "\<bar>1 - a\<bar> < 2" by (simp add: abs_if)
  then obtain c where c: "fl (1 - a) = Fin c" "1 - a - eps \<le> c" "c \<le> 1 - a + eps"
    by (rule fl_near)
  have c1: "r = 0 \<Longrightarrow> c = 1" using a0 c(1) by simp
  have "jssub (Fin 1) (jsdiv (Fin (of_int r)) (Fin 255)) = Fin c"
    by (simp add: a(1) jssub_Fin c(1))
  moreover have "1 - of_int r / 255 - 2 * eps \<le> c" using a c by linarith
  moreover have "c \<le> 1 - of_int r / 255 + 2 * eps" using a c by linarith
  ultimately show thesis using c1 that by blast
qed


lemma abs_less_2: "- 2 < x \<Longrightarrow> x < 2 \<Longrightarrow> \<bar>x :: rat\<bar> < 2"
  by (simp add: abs_less_iff)

lemma abs_less_512: "- 512 < x \<Longrightarrow> x < 512 \<Longrightarrow> \<bar>x :: rat\<bar> < 512"
  by (simp add: abs_less_iff)

lemma Math_round_near:
  assumes "of_int r - 1/2 < t" "t < of_int r + 1/2"
  shows "Math_round (Fin t) = Fin (of_int r)"
proof -
  have "\<lfloor>t + 1/2\<rfloor> = r" using assms by (simp add: floor_eq_iff) 
  then show ?thesis by simp
qed

text \<open>
  One channel through \<open>rgb2cmyk\<close> (second step) and back through \<open>cmyk2rgb\<close>, with the error
  of every rounded operation accounted for.
\<close>

lemma roundtrip_channel:
  assumes c: "1 - of_int r / 255 - 2 * eps \<le> c" "c \<le> 1 - of_int r / 255 + 2 * eps"
    and r: "0 \<le> r" "r \<le> 255"
    and k: "- 2 * eps \<le> k" "k \<le> 254 / 255 + 2 * eps" "k \<le> c"
  shows "Math_round (jsmul (jssub (Fin 1)
           (jsadd (jsmul (jsdiv (jssub (Fin c) (Fin k)) (jssub (Fin 1) (Fin k)))
                         (jssub (Fin 1) (Fin k))) (Fin k))) (Fin 255))
         = Fin (of_int r)"
proof -
  note e = eps_pos eps_small
  have R: "(0::rat) \<le> of_int r" "(of_int r :: rat) \<le> 255" using r by simp_all
  have "\<bar>1 - k\<bar> < 2" using k e by (intro abs_less_2) linarith+
  then obtain d where d: "fl (1 - k) = Fin d" "1 - k - eps \<le> d" "d \<le> 1 - k + eps"
    by (rule fl_near)
  have dpos: "0 < d" and d2: "d \<le> 2" using d k e by linarith+
  have "\<bar>c - k\<bar> < 2" using c k e R by (intro abs_less_2) linarith+
  then obtain n where n: "fl (c - k) = Fin n" "c - k - eps \<le> n" "n \<le> c - k + eps"
    by (rule fl_near)
  have n_lo: "- eps \<le> n" and n_hi: "n \<le> 1 - k + 3 * eps" using n c k R by linarith+
  have "n < 2 * d" "- 2 * d < n" using n_lo n_hi d k e by linarith+
  then have "n / d < 2" "- 2 < n / d"
    using dpos by (simp_all add: pos_divide_less_eq pos_less_divide_eq)
  then have "\<bar>n / d\<bar> < 2" by (intro abs_less_2)
  then obtain q where q: "fl (n / d) = Fin q" "n / d - eps \<le> q" "q \<le> n / d + eps"
    by (rule fl_near)
  have "n - eps * d = (n / d - eps) * d" using dpos by (simp add: field_simps)
  also have "\<dots> \<le> q * d" using q(2) dpos by (intro mult_right_mono) simp_all
  finally have qd1: "n - eps * d \<le> q * d" .
  have "q * d \<le> (n / d + eps) * d" using q(3) dpos by (intro mult_right_mono) simp_all
  also have "\<dots> = n + eps * d" using dpos by (simp add: field_simps)
  finally have qd2: "q * d \<le> n + eps * d" .
  have ed: "eps * d \<le> eps * 2" using d2 e by (intro mult_left_mono) simp_all
  have qd: "n - 2 * eps \<le> q * d" "q * d \<le> n + 2 * eps" using qd1 qd2 ed by linarith+
  have "\<bar>q * d\<bar> < 2" using qd n_lo n_hi k e by (intro abs_less_2) linarith+
  then obtain p where p: "fl (q * d) = Fin p" "q * d - eps \<le> p" "p \<le> q * d + eps"
    by (rule fl_near)
  have pk: "c - 4 * eps \<le> p + k" "p + k \<le> c + 4 * eps" using p qd n by linarith+
  have "\<bar>p + k\<bar> < 2" using pk c R e by (intro abs_less_2) linarith+
  then obtain f where f: "fl (p + k) = Fin f" "p + k - eps \<le> f" "f \<le> p + k + eps"
    by (rule fl_near)
  have "\<bar>1 - f\<bar> < 2" using f pk c R e by (intro abs_less_2) linarith+
  then obtain s where s: "fl (1 - f) = Fin s" "1 - f - eps \<le> s" "s \<le> 1 - f + eps"
    by (rule fl_near)
  have s_lo: "of_int r / 255 - 8 * eps \<le> s" and s_hi: "s \<le> of_int r / 255 + 8 * eps"
    using s f pk c by linarith+
  have "\<bar>s * 255\<bar> < 512" using s_lo s_hi R e by (intro abs_less_512) linarith+
  then obtain t where t: "fl (s * 255) = Fin t" "s * 255 - 256 * eps \<le> t"
    "t \<le> s * 255 + 256 * eps" by (rule fl_near512)
  have "of_int r - 1/2 < t" "t < of_int r + 1/2" using t s_lo s_hi e by linarith+
  then have "Math_round (Fin t) = Fin (of_int r)" by (rule Math_round_near)
  moreover have "d \<noteq> 0" using dpos by simp
  ultimately show ?thesis
    by (simp add: jssub_Fin d(1) n(1) q(1) p(1) f(1) s(1) t(1))
qed


lemma rgb2cmyk_unfold:
  assumes "jssub (Fin 1) (jsdiv iR (Fin 255)) = Fin c"
    and "jssub (Fin 1) (jsdiv iG (Fin 255)) = Fin m"
    and "jssub (Fin 1) (jsdiv iB (Fin 255)) = Fin y"
  shows "rgb2cmyk iR iG iB =
    (let k = min 1 (min c (min m y))
     in if k = 1 then [Fin 0, Fin 0, Fin 0, Fin 1]
        else [jsdiv (jssub (Fin c) (Fin k)) (jssub (Fin 1) (Fin k)),
              jsdiv (jssub (Fin m) (Fin k)) (jssub (Fin 1) (Fin k)),
              jsdiv (jssub (Fin y) (Fin k)) (jssub (Fin 1) (Fin k)),
              Fin k])"
  unfolding rgb2cmyk_def Let_def assms Math_min_Fin jseq_def by simp

lemma Math_round_zero: "Math_round (Fin 0) = Fin 0"
  using Math_round_near[of 0 0] by simp

lemma cmyk2rgb_black: "cmyk2rgb (Fin 0) (Fin 0) (Fin 0) (Fin 1) = [Fin 0, Fin 0, Fin 0]"
  by (simp add: cmyk2rgb_def jssub_Fin Math_round_zero del: Math_round.simps)

text \<open>What is known of the black component when it is not 1.\<close>

lemma black_bounds:
  assumes c: "1 - of_int r / 255 - 2 * eps \<le> c" "c \<le> 1 - of_int r / 255 + 2 * eps" "r = 0 \<Longrightarrow> c = 1"
    and m: "1 - of_int g / 255 - 2 * eps \<le> m" "m \<le> 1 - of_int g / 255 + 2 * eps" "g = 0 \<Longrightarrow> m = 1"
    and y: "1 - of_int b / 255 - 2 * eps \<le> y" "y \<le> 1 - of_int b / 255 + 2 * eps" "b = 0 \<Longrightarrow> y = 1"
    and rgb: "0 \<le> r" "r \<le> 255" "0 \<le> g" "g \<le> 255" "0 \<le> b" "b \<le> 255"
    and k: "k = min 1 (min c (min m y))"
  shows "k = 1 \<longleftrightarrow> r = 0 \<and> g = 0 \<and> b = 0"
    and "k \<noteq> 1 \<Longrightarrow> - 2 * eps \<le> k \<and> k \<le> 254 / 255 + 2 * eps"
    and "k \<le> c" "k \<le> m" "k \<le> y"
proof -
  note e = eps_pos eps_small
  have R: "(0::rat) \<le> of_int r" "(of_int r :: rat) \<le> 255" "(0::rat) \<le> of_int g"
    "(of_int g :: rat) \<le> 255" "(0::rat) \<le> of_int b" "(of_int b :: rat) \<le> 255"
    using rgb by simp_all
  show le: "k \<le> c" "k \<le> m" "k \<le> y" by (simp_all add: k)
  have pos: "(of_int i :: rat) < 1 \<Longrightarrow> 0 \<le> i \<Longrightarrow> i = 0" for i :: int
    by linarith
  show "k = 1 \<longleftrightarrow> r = 0 \<and> g = 0 \<and> b = 0"
  proof
    assume "k = 1"
    then have "1 \<le> c" "1 \<le> m" "1 \<le> y" using le by simp_all
    then have "(of_int r :: rat) < 1" "(of_int g :: rat) < 1" "(of_int b :: rat) < 1"
      using c(2) m(2) y(2) e by linarith+
    then show "r = 0 \<and> g = 0 \<and> b = 0" using rgb pos by blast
  next
    assume "r = 0 \<and> g = 0 \<and> b = 0"
    then have "c = 1" "m = 1" "y = 1" using c(3) m(3) y(3) by simp_all
    then show "k = 1" by (simp add: k)
  qed
  show "- 2 * eps \<le> k \<and> k \<le> 254 / 255 + 2 * eps" if "k \<noteq> 1"
  proof
    have "- 2 * eps \<le> c" "- 2 * eps \<le> m" "- 2 * eps \<le> y" "- 2 * eps \<le> 1"
      using c(1) m(1) y(1) R e by linarith+
    then show "- 2 * eps \<le> k" by (simp add: k)
    have one: "(1::rat) \<le> of_int i" if "i \<noteq> 0" "0 \<le> i" for i :: int
      using that by linarith
    have "k = c \<or> k = m \<or> k = y" using that by (auto simp: k min_def)
    then show "k \<le> 254 / 255 + 2 * eps"
    proof (elim disjE)
      assume "k = c"
      then have "r \<noteq> 0" using c(3) that by auto
      then have "(1::rat) \<le> of_int r" using rgb one by blast
      then show ?thesis using c(2) \<open>k = c\<close> by linarith
    next
      assume "k = m"
      then have "g \<noteq> 0" using m(3) that by auto
      then have "(1::rat) \<le> of_int g" using rgb one by blast
      then show ?thesis using m(2) \<open>k = m\<close> by linarith
    next
      assume "k = y"
      then have "b \<noteq> 0" using y(3) that by auto
      then have "(1::rat) \<le> of_int b" using rgb one by blast
      then show ?thesis using y(2) \<open>k = y\<close> by linarith
    qed
  qed
qed

lemma rgb_cmyk_rgb:
  assumes rgb: "0 \<le> r" "r \<le> 255" "0 \<le> g" "g \<le> 255" "0 \<le> b" "b \<le> 255"
  shows "\<exists>fC fM fY fK. rgb2cmyk (Fin (of_int r)) (Fin (of_int g)) (Fin (of_int b)) = [fC, fM, fY, fK]
           \<and> cmyk2rgb fC fM fY fK = [Fin (of_int r), Fin (of_int g), Fin (of_int b)]"
proof -
  obtain c where c: "jssub (Fin 1) (jsdiv (Fin (of_int r)) (Fin 255)) = Fin c"
    "1 - of_int r / 255 - 2 * eps \<le> c" "c \<le> 1 - of_int r / 255 + 2 * eps" "r = 0 \<Longrightarrow> c = 1"
    using complement_channel[OF rgb(1,2)] by blast
  obtain m where m: "jssub (Fin 1) (jsdiv (Fin (of_int g)) (Fin 255)) = Fin m"
    "1 - of_int g / 255 - 2 * eps \<le> m" "m \<le> 1 - of_int g / 255 + 2 * eps" "g = 0 \<Longrightarrow> m = 1"
    using complement_channel[OF rgb(3,4)] by blast
  obtain y where y: "jssub (Fin 1) (jsdiv (Fin (of_int b)) (Fin 255)) = Fin y"
    "1 - of_int b / 255 - 2 * eps \<le> y" "y \<le> 1 - of_int b / 255 + 2 * eps" "b = 0 \<Longrightarrow> y = 1"
    using complement_channel[OF rgb(5,6)] by blast
  define k where "k = min 1 (min c (min m y))"
  note kb = black_bounds[OF c(2,3,4) m(2,3,4) y(2,3,4) rgb k_def]
  note shape = rgb2cmyk_unfold[OF c(1) m(1) y(1), unfolded Let_def, folded k_def]
  show ?thesis
  proof (cases "k = 1")
    case True
    then have "r = 0" "g = 0" "b = 0" using kb(1) by simp_all
    then show ?thesis using True shape by (simp add: cmyk2rgb_black)
  next
    case False
    then have k: "- 2 * eps \<le> k" "k \<le> 254 / 255 + 2 * eps" using kb(2) by simp_all
    have "cmyk2rgb (jsdiv (jssub (Fin c) (Fin k)) (jssub (Fin 1) (Fin k)))
            (jsdiv (jssub (Fin m) (Fin k)) (jssub (Fin 1) (Fin k)))
            (jsdiv (jssub (Fin y) (Fin k)) (jssub (Fin 1) (Fin k))) (Fin k)
          = [Fin (of_int r), Fin (of_int g), Fin (of_int b)]"
      unfolding cmyk2rgb_def Let_def
      by (simp only: roundtrip_channel[OF c(2,3) rgb(1,2) k kb(3)]
            roundtrip_channel[OF m(2,3) rgb(3,4) k kb(4)]
            roundtrip_channel[OF y(2,3) rgb(5,6) k kb(5)])
    then show ?thesis using False shape by simp
  qed
qed


text \<open>The division of \<open>rgb2cmyk\<close> on one channel: its divisor is not zero, its result is finite.\<close>

lemma forward_channel:
  assumes c: "1 - of_int r / 255 - 2 * eps \<le> c" "c \<le> 1 - of_int r / 255 + 2 * eps"
    and r: "0 \<le> r" "r \<le> 255"
    and k: "- 2 * eps \<le> k" "k \<le> 254 / 255 + 2 * eps" "k \<le> c"
  obtains d q where "jssub (Fin 1) (Fin k) = Fin d" "d \<noteq> 0"
    "jsdiv (jssub (Fin c) (Fin k)) (jssub (Fin 1) (Fin k)) = Fin q"
proof -
  note e = eps_pos eps_small
  have R: "(0::rat) \<le> of_int r" "(of_int r :: rat) \<le> 255" using r by simp_all
  have "\<bar>1 - k\<bar> < 2" using k e by (intro abs_less_2) linarith+
  then obtain d where d: "fl (1 - k) = Fin d" "1 - k - eps \<le> d" "d \<le> 1 - k + eps"
    by (rule fl_near)
  have dpos: "0 < d" using d k e by linarith
  have "\<bar>c - k\<bar> < 2" using c k e R by (intro abs_less_2) linarith+
  then obtain n where n: "fl (c - k) = Fin n" "c - k - eps \<le> n" "n \<le> c - k + eps"
    by (rule fl_near)
  have "n < 2 * d" "- 2 * d < n" using n c R d k e by linarith+
  then have "n / d < 2" "- 2 < n / d"
    using dpos by (simp_all add: pos_divide_less_eq pos_less_divide_eq)
  then have "\<bar>n / d\<bar> < 2" by (intro abs_less_2)
  then obtain q where q: "fl (n / d) = Fin q" "n / d - eps \<le> q" "q \<le> n / d + eps"
    by (rule fl_near)
  have "d \<noteq> 0" using dpos by simp
  moreover have "jssub (Fin 1) (Fin k) = Fin d" by (simp add: jssub_Fin d(1))
  moreover have "jsdiv (jssub (Fin c) (Fin k)) (jssub (Fin 1) (Fin k)) = Fin q"
    using \<open>d \<noteq> 0\<close> by (simp add: jssub_Fin d(1) n(1) q(1))
  ultimately show thesis using that by blast
qed

lemma rgb2cmyk_finite:
  assumes rgb: "0 \<le> r" "r \<le> 255" "0 \<le> g" "g \<le> 255" "0 \<le> b" "b \<le> 255"
  shows "\<exists>c m y k. rgb2cmyk (Fin (of_int r)) (Fin (of_int g)) (Fin (of_int b))
                     = [Fin c, Fin m, Fin y, Fin k]
           \<and> (k = 1 \<longleftrightarrow> r = 0 \<and> g = 0 \<and> b = 0)
           \<and> (k \<noteq> 1 \<longrightarrow> (\<exists>d. jssub (Fin 1) (Fin k) = Fin d \<and> d \<noteq> 0))"
proof -
  obtain c where c: "jssub (Fin 1) (jsdiv (Fin (of_int r)) (Fin 255)) = Fin c"
    "1 - of_int r / 255 - 2 * eps \<le> c" "c \<le> 1 - of_int r / 255 + 2 * eps" "r = 0 \<Longrightarrow> c = 1"
    using complement_channel[OF rgb(1,2)] by blast
  obtain m where m: "jssub (Fin 1) (jsdiv (Fin (of_int g)) (Fin 255)) = Fin m"
    "1 - of_int g / 255 - 2 * eps \<le> m" "m \<le> 1 - of_int g / 255 + 2 * eps" "g = 0 \<Longrightarrow> m = 1"
    using complement_channel[OF rgb(3,4)] by blast
  obtain y where y: "jssub (Fin 1) (jsdiv (Fin (of_int b)) (Fin 255)) = Fin y"
    "1 - of_int b / 255 - 2 * eps \<le> y" "y \<le> 1 - of_int b / 255 + 2 * eps" "b = 0 \<Longrightarrow> y = 1"
    using complement_channel[OF rgb(5,6)] by blast
  define k where "k = min 1 (min c (min m y))"
  note kb = black_bounds[OF c(2,3,4) m(2,3,4) y(2,3,4) rgb k_def]
  note shape = rgb2cmyk_unfold[OF c(1) m(1) y(1), unfolded Let_def, folded k_def]
  show ?thesis
  proof (cases "k = 1")
    case True
    then show ?thesis using shape kb(1) by simp
  next
    case False
    then have k: "- 2 * eps \<le> k" "k \<le> 254 / 255 + 2 * eps" using kb(2) by simp_all
    obtain d qc where qc: "jssub (Fin 1) (Fin k) = Fin d" "d \<noteq> 0"
      "jsdiv (jssub (Fin c) (Fin k)) (jssub (Fin 1) (Fin k)) = Fin qc"
      using forward_channel[OF c(2,3) rgb(1,2) k kb(3)] by blast
    obtain d' qm where qm: "jsdiv (jssub (Fin m) (Fin k)) (jssub (Fin 1) (Fin k)) = Fin qm"
      using forward_channel[OF m(2,3) rgb(3,4) k kb(4)] by blast
    obtain d'' qy where qy: "jsdiv (jssub (Fin y) (Fin k)) (jssub (Fin 1) (Fin k)) = Fin qy"
      using forward_channel[OF y(2,3) rgb(5,6) k kb(5)] by blast
    have "rgb2cmyk (Fin (of_int r)) (Fin (of_int g)) (Fin (of_int b))
          = [Fin qc, Fin qm, Fin qy, Fin k]"
      using False by (simp only: shape if_False qc(3) qm qy)
    then show ?thesis using False kb(1) qc(1,2) by blast
  qed
qed

lemma Math_round_eq:
  assumes "of_int r - 1/2 \<le> t" "t < of_int r + 1/2"
  shows "Math_round (Fin t) = Fin (of_int r)"
proof -
  have "\<lfloor>t + 1/2\<rfloor> = r" using assms by (simp add: floor_eq_iff)
  then show ?thesis by simp
qed

lemma fl_examples:
  "fl (1/2) = Fin (1/2)" "fl (1/4) = Fin (1/4)" "fl (3/4) = Fin (3/4)"
  "fl (255/2) = Fin (255/2)" "fl (765/4) = Fin (765/4)"
  "fl (25/2) = Fin (25/2)" "fl (125/4) = Fin (125/4)" "fl (175/2) = Fin (175/2)"
  "fl 100 = Fin 100"
  using fl_dyadic[of 1 1] fl_dyadic[of 1 2] fl_dyadic[of 3 2] fl_dyadic[of 255 1]
    fl_dyadic[of 765 2] fl_dyadic[of 25 1] fl_dyadic[of 125 2] fl_dyadic[of 175 1]
    fl_of_int[of 100]
  by simp_all

lemma round_examples:
  "Math_round (Fin (255/2)) = Fin 128" "Math_round (Fin (765/4)) = Fin 191"
  "Math_round (Fin (25/2)) = Fin 13" "Math_round (Fin (125/4)) = Fin 31"
  "Math_round (Fin (175/2)) = Fin 88" "Math_round (Fin 100) = Fin 100"
  using Math_round_eq[of 128 "255/2"] Math_round_eq[of 191 "765/4"] Math_round_eq[of 13 "25/2"]
    Math_round_eq[of 31 "125/4"] Math_round_eq[of 88 "175/2"] Math_round_eq[of 100 100]
  by simp_all

lemma cmyk2rgb_example:
  "cmyk2rgb (Fin (1/2)) (Fin (1/4)) (Fin 1) (Fin 0) = [Fin 128, Fin 191, Fin 0]"
  by (simp add: cmyk2rgb_def jssub_Fin fl_examples round_examples Math_round_zero
      del: Math_round.simps)

lemma spec_round_mono: "x \<le> y \<Longrightarrow> spec_round x \<le> spec_round y"
  by (simp add: spec_round_def floor_mono)

lemma Math_round_spec: "Math_round (Fin t) = Fin (of_int (spec_round t))"
  by (simp add: spec_round_def)

text \<open>
  One channel of \<open>cmyk2rgb\<close> on components between 0 and 1: the value that is rounded
  differs from the exact \<open>(1 - c2) * 255\<close> by less than \<open>1 / 2 ^ 42\<close>.
\<close>

lemma backward_channel_value:
  assumes c: "0 \<le> c" "c \<le> 1" and k: "0 \<le> k" "k \<le> 1"
  obtains t where
    "jsmul (jssub (Fin 1) (jsadd (jsmul (Fin c) (jssub (Fin 1) (Fin k))) (Fin k))) (Fin 255)
     = Fin t"
    "spec_channel c k - 1 / 2 ^ 42 \<le> t" "t \<le> spec_channel c k + 1 / 2 ^ 42"
proof -
  note e = eps_pos eps_small
  define w where "w = c * (1 - k)"
  define X where "X = spec_channel c k"
  have X: "X = 255 - 255 * w - 255 * k" by (simp add: X_def spec_channel_def w_def algebra_simps)
  have w: "0 \<le> w" "w \<le> 1 - k"
  proof -
    show "0 \<le> w" using c k by (simp add: w_def)
    have "c * (1 - k) \<le> 1 * (1 - k)" using c k by (intro mult_right_mono) simp_all
    then show "w \<le> 1 - k" by (simp add: w_def)
  qed
  have "\<bar>1 - k\<bar> < 2" using k by (intro abs_less_2) linarith+
  then obtain d where d: "fl (1 - k) = Fin d" "1 - k - eps \<le> d" "d \<le> 1 - k + eps"
    by (rule fl_near)
  have ce: "c * eps \<le> 1 * eps" using c e by (intro mult_right_mono) simp_all
  have "c * d \<le> c * (1 - k + eps)" using d(3) c by (intro mult_left_mono) simp_all
  also have "\<dots> = w + c * eps" by (simp add: w_def algebra_simps)
  finally have cd_hi: "c * d \<le> w + eps" using ce by simp
  have "w - c * eps = c * (1 - k - eps)" by (simp add: w_def algebra_simps)
  also have "\<dots> \<le> c * d" using d(2) c by (intro mult_left_mono) simp_all
  finally have cd_lo: "w - eps \<le> c * d" using ce by simp
  have "\<bar>c * d\<bar> < 2" using cd_lo cd_hi w k e by (intro abs_less_2) linarith+
  then obtain p where p: "fl (c * d) = Fin p" "c * d - eps \<le> p" "p \<le> c * d + eps"
    by (rule fl_near)
  have "\<bar>p + k\<bar> < 2" using p cd_lo cd_hi w k e by (intro abs_less_2) linarith+
  then obtain f where f: "fl (p + k) = Fin f" "p + k - eps \<le> f" "f \<le> p + k + eps"
    by (rule fl_near)
  have f_lo: "w + k - 3 * eps \<le> f" and f_hi: "f \<le> w + k + 3 * eps"
    using f p cd_lo cd_hi by linarith+
  have "\<bar>1 - f\<bar> < 2" using f_lo f_hi w k e by (intro abs_less_2) linarith+
  then obtain s where s: "fl (1 - f) = Fin s" "1 - f - eps \<le> s" "s \<le> 1 - f + eps"
    by (rule fl_near)
  have "\<bar>s * 255\<bar> < 512" using s f_lo f_hi w k e by (intro abs_less_512) linarith+
  then obtain t where t: "fl (s * 255) = Fin t" "s * 255 - 256 * eps \<le> t"
    "t \<le> s * 255 + 256 * eps" by (rule fl_near512)
  have d42: "(1::rat) / 2 ^ 42 = 2048 * eps" by (simp add: eps_def)
  have "X - 1 / 2 ^ 42 \<le> t" "t \<le> X + 1 / 2 ^ 42"
    unfolding d42 using t s f_lo f_hi X e by linarith+
  moreover have "jsmul (jssub (Fin 1)
      (jsadd (jsmul (Fin c) (jssub (Fin 1) (Fin k))) (Fin k))) (Fin 255) = Fin t"
    by (simp add: jssub_Fin d(1) p(1) f(1) s(1) t(1))
  ultimately show thesis using that by (simp add: X_def)
qed

lemma spec_channel_range:
  assumes "0 \<le> c" "c \<le> 1" "0 \<le> k" "k \<le> 1"
  shows "0 \<le> spec_channel c k" "spec_channel c k \<le> 255"
proof -
  define w where "w = c * (1 - k)"
  have "0 \<le> w" using assms by (simp add: w_def)
  moreover have "c * (1 - k) \<le> 1 * (1 - k)" using assms by (intro mult_right_mono) simp_all
  then have "w \<le> 1 - k" by (simp add: w_def)
  moreover have "spec_channel c k = 255 - 255 * w - 255 * k"
    by (simp add: spec_channel_def w_def algebra_simps)
  ultimately show "0 \<le> spec_channel c k" "spec_channel c k \<le> 255"
    using assms by linarith+
qed

lemma backward_channel_rounded:
  assumes c: "0 \<le> c" "c \<le> 1" and k: "0 \<le> k" "k \<le> 1"
  obtains i where
    "Math_round (jsmul (jssub (Fin 1) (jsadd (jsmul (Fin c) (jssub (Fin 1) (Fin k))) (Fin k)))
                       (Fin 255)) = Fin (of_int i)"
    "0 \<le> i" "i \<le> 255"
    "spec_round (spec_channel c k - 1 / 2 ^ 42) \<le> i"
    "i \<le> spec_round (spec_channel c k + 1 / 2 ^ 42)"
proof -
  obtain t where t: "jsmul (jssub (Fin 1)
      (jsadd (jsmul (Fin c) (jssub (Fin 1) (Fin k))) (Fin k))) (Fin 255) = Fin t"
    "spec_channel c k - 1 / 2 ^ 42 \<le> t" "t \<le> spec_channel c k + 1 / 2 ^ 42"
    using backward_channel_value[OF assms] by blast
  note X = spec_channel_range[OF assms]
  have small: "(1::rat) / 2 ^ 42 \<le> 1 / 4" by simp
  have "0 \<le> t + 1/2" "t + 1/2 < 256" using t(2,3) X small by linarith+
  then have "0 \<le> spec_round t" "spec_round t < 256"
    by (simp_all add: spec_round_def le_floor_iff floor_less_iff)
  moreover have "spec_round (spec_channel c k - 1 / 2 ^ 42) \<le> spec_round t"
    "spec_round t \<le> spec_round (spec_channel c k + 1 / 2 ^ 42)"
    using t(2,3) by (simp_all add: spec_round_mono)
  ultimately show thesis
    using that[of "spec_round t"] t(1) by (simp add: Math_round_spec del: Math_round.simps)
qed

lemma cmyk2rgb_rounded:
  assumes "0 \<le> c" "c \<le> 1" "0 \<le> m" "m \<le> 1" "0 \<le> y" "y \<le> 1" "0 \<le> k" "k \<le> 1"
  shows "\<exists>iR iG iB. cmyk2rgb (Fin c) (Fin m) (Fin y) (Fin k)
                       = [Fin (of_int iR), Fin (of_int iG), Fin (of_int iB)]
           \<and> 0 \<le> iR \<and> iR \<le> 255 \<and> 0 \<le> iG \<and> iG \<le> 255 \<and> 0 \<le> iB \<and> iB \<le> 255
           \<and> spec_round (spec_channel c k - 1 / 2 ^ 42) \<le> iR
           \<and> iR \<le> spec_round (spec_channel c k + 1 / 2 ^ 42)
           \<and> spec_round (spec_channel m k - 1 / 2 ^ 42) \<le> iG
           \<and> iG \<le> spec_round (spec_channel m k + 1 / 2 ^ 42)
           \<and> spec_round (spec_channel y k - 1 / 2 ^ 42) \<le> iB
           \<and> iB \<le> spec_round (spec_channel y k + 1 / 2 ^ 42)"
proof -
  obtain iR where iR: "Math_round (jsmul (jssub (Fin 1)
      (jsadd (jsmul (Fin c) (jssub (Fin 1) (Fin k))) (Fin k))) (Fin 255)) = Fin (of_int iR)"
    "0 \<le> iR" "iR \<le> 255" "spec_round (spec_channel c k - 1 / 2 ^ 42) \<le> iR"
    "iR \<le> spec_round (spec_channel c k + 1 / 2 ^ 42)"
    using backward_channel_rounded[OF assms(1,2,7,8)] by blast
  obtain iG where iG: "Math_round (jsmul (jssub (Fin 1)
      (jsadd (jsmul (Fin m) (jssub (Fin 1) (Fin k))) (Fin k))) (Fin 255)) = Fin (of_int iG)"
    "0 \<le> iG" "iG \<le> 255" "spec_round (spec_channel m k - 1 / 2 ^ 42) \<le> iG"
    "iG \<le> spec_round (spec_channel m k + 1 / 2 ^ 42)"
    using backward_channel_rounded[OF assms(3,4,7,8)] by blast
  obtain iB where iB: "Math_round (jsmul (jssub (Fin 1)
      (jsadd (jsmul (Fin y) (jssub (Fin 1) (Fin k))) (Fin k))) (Fin 255)) = Fin (of_int iB)"
    "0 \<le> iB" "iB \<le> 255" "spec_round (spec_channel y k - 1 / 2 ^ 42) \<le> iB"
    "iB \<le> spec_round (spec_channel y k + 1 / 2 ^ 42)"
    using backward_channel_rounded[OF assms(5,6,7,8)] by blast
  have "cmyk2rgb (Fin c) (Fin m) (Fin y) (Fin k) = [Fin (of_int iR), Fin (of_int iG), Fin (of_int iB)]"
    unfolding cmyk2rgb_def Let_def by (simp only: iR(1) iG(1) iB(1))
  then show ?thesis using iR(2-5) iG(2-5) iB(2-5) by blast
qed

text \<open>
  C1. For all integer channels between 0 and 255, converting to CMYK with \<open>rgb2cmyk\<close> and
  the four components of the result back with \<open>cmyk2rgb\<close> gives exactly the original
  triplet. This holds of the double precision arithmetic, every operation of which rounds:
  the accumulated error stays far below the 1/2 that \<open>Math.round\<close> absorbs.
\<close>

theorem rgb_cmyk_roundtrip_exact:
  assumes "0 \<le> r" "r \<le> 255" "0 \<le> g" "g \<le> 255" "0 \<le> b" "b \<le> 255"
  shows "(let a = rgb2cmyk (Fin (of_int r)) (Fin (of_int g)) (Fin (of_int b))
          in cmyk2rgb (a ! 0) (a ! 1) (a ! 2) (a ! 3))
         = [Fin (of_int r), Fin (of_int g), Fin (of_int b)]"
  using rgb_cmyk_rgb[OF assms] by (auto simp: Let_def)

theorem rgb_cmyk_roundtrip_exact_witness:
  "(let a = rgb2cmyk (Fin 12) (Fin 34) (Fin 56)
    in cmyk2rgb (a ! 0) (a ! 1) (a ! 2) (a ! 3)) = [Fin 12, Fin 34, Fin 56]"
  using rgb_cmyk_roundtrip_exact[of 12 34 56] by simp

text \<open>
  C5. \<open>rgb2cmyk (0, 0, 0)\<close> is exactly \<open>(0, 0, 0, 1)\<close>. For all integer channels between 0
  and 255 the four components of the result are finite numbers (neither NaN nor an
  infinity, which a division by zero would give); the branch \<open>fK == 1\<close> is taken exactly
  for black, and in the other branch the divisor \<open>1 - fK\<close> is a number different from 0.
\<close>

theorem rgb2cmyk_black_sole_special_case:
  "rgb2cmyk (Fin 0) (Fin 0) (Fin 0) = [Fin 0, Fin 0, Fin 0, Fin 1]
   \<and> (0 \<le> r \<and> r \<le> 255 \<and> 0 \<le> g \<and> g \<le> 255 \<and> 0 \<le> b \<and> b \<le> 255 \<longrightarrow>
        (\<exists>c m y k. rgb2cmyk (Fin (of_int r)) (Fin (of_int g)) (Fin (of_int b))
                     = [Fin c, Fin m, Fin y, Fin k]
           \<and> (k = 1 \<longleftrightarrow> r = 0 \<and> g = 0 \<and> b = 0)
           \<and> (k \<noteq> 1 \<longrightarrow> (\<exists>d. jssub (Fin 1) (Fin k) = Fin d \<and> d \<noteq> 0))))"
proof -
  have "rgb2cmyk (Fin 0) (Fin 0) (Fin 0) = [Fin 0, Fin 0, Fin 0, Fin 1]"
    by (simp add: rgb2cmyk_def jssub_Fin Math_min_Fin jseq_def)
  then show ?thesis using rgb2cmyk_finite[of r g b] by blast
qed

theorem rgb2cmyk_black_sole_special_case_witness:
  "\<exists>c m y k. rgb2cmyk (Fin 12) (Fin 34) (Fin 56) = [Fin c, Fin m, Fin y, Fin k]
     \<and> k \<noteq> 1 \<and> (\<exists>d. jssub (Fin 1) (Fin k) = Fin d \<and> d \<noteq> 0)"
proof -
  have "(0::int) \<le> 12 \<and> (12::int) \<le> 255 \<and> (0::int) \<le> 34 \<and> (34::int) \<le> 255
        \<and> (0::int) \<le> 56 \<and> (56::int) \<le> 255 \<and> \<not> ((12::int) = 0 \<and> (34::int) = 0 \<and> (56::int) = 0)"
    by simp
  with rgb2cmyk_black_sole_special_case[of 12 34 56] show ?thesis
    by (simp del: ex_simps) blast
qed

text \<open>
  C6. \<open>cmyk2rgb\<close> computes \<open>c2 = c * (1 - k) + k\<close> for each of c, m, y and returns
  \<open>round ((1 - c2) * 255)\<close> for each channel, every operation being the double precision
  one. When the four components lie between 0 and 1, every channel of the result is an
  integer between 0 and 255, and it is the rounding of a number that differs from the exact
  \<open>(1 - c2) * 255\<close> of the specification by at most \<open>1 / 2 ^ 42\<close>: it lies between the
  roundings (a tie going up) of the exact value less and plus that bound, which are the same
  integer unless the exact value is that close to a tie. The components 0.5, 0.25, 1, 0
  give 128, 191, 0: the exact 127.5 goes up.
\<close>

theorem cmyk2rgb_formula_and_range:
  "cmyk2rgb fC fM fY fK =
     [Math_round (jsmul (jssub (Fin 1) (jsadd (jsmul fC (jssub (Fin 1) fK)) fK)) (Fin 255)),
      Math_round (jsmul (jssub (Fin 1) (jsadd (jsmul fM (jssub (Fin 1) fK)) fK)) (Fin 255)),
      Math_round (jsmul (jssub (Fin 1) (jsadd (jsmul fY (jssub (Fin 1) fK)) fK)) (Fin 255))]
   \<and> (0 \<le> c \<and> c \<le> 1 \<and> 0 \<le> m \<and> m \<le> 1 \<and> 0 \<le> y \<and> y \<le> 1 \<and> 0 \<le> k \<and> k \<le> 1 \<longrightarrow>
        (\<exists>iR iG iB. cmyk2rgb (Fin c) (Fin m) (Fin y) (Fin k)
                       = [Fin (of_int iR), Fin (of_int iG), Fin (of_int iB)]
           \<and> 0 \<le> iR \<and> iR \<le> 255 \<and> 0 \<le> iG \<and> iG \<le> 255 \<and> 0 \<le> iB \<and> iB \<le> 255
           \<and> spec_round (spec_channel c k - 1 / 2 ^ 42) \<le> iR
           \<and> iR \<le> spec_round (spec_channel c k + 1 / 2 ^ 42)
           \<and> spec_round (spec_channel m k - 1 / 2 ^ 42) \<le> iG
           \<and> iG \<le> spec_round (spec_channel m k + 1 / 2 ^ 42)
           \<and> spec_round (spec_channel y k - 1 / 2 ^ 42) \<le> iB
           \<and> iB \<le> spec_round (spec_channel y k + 1 / 2 ^ 42)))
   \<and> cmyk2rgb (Fin (1/2)) (Fin (1/4)) (Fin 1) (Fin 0) = [Fin 128, Fin 191, Fin 0]"
proof -
  have "cmyk2rgb fC fM fY fK =
     [Math_round (jsmul (jssub (Fin 1) (jsadd (jsmul fC (jssub (Fin 1) fK)) fK)) (Fin 255)),
      Math_round (jsmul (jssub (Fin 1) (jsadd (jsmul fM (jssub (Fin 1) fK)) fK)) (Fin 255)),
      Math_round (jsmul (jssub (Fin 1) (jsadd (jsmul fY (jssub (Fin 1) fK)) fK)) (Fin 255))]"
    by (simp only: cmyk2rgb_def Let_def)
  then show ?thesis using cmyk2rgb_rounded[of c m y k] cmyk2rgb_example by blast
qed

theorem cmyk2rgb_formula_and_range_witness:
  "cmyk2rgb (Fin (1/4)) (Fin (3/4)) (Fin 1) (Fin (1/5)) = [Fin 153, Fin 51, Fin 0]"
proof -
  have h: "(0::rat) \<le> 1/4 \<and> (1/4::rat) \<le> 1 \<and> (0::rat) \<le> 3/4 \<and> (3/4::rat) \<le> 1
        \<and> (0::rat) \<le> 1 \<and> (1::rat) \<le> 1 \<and> (0::rat) \<le> 1/5 \<and> (1/5::rat) \<le> 1"
    by simp
  have v: "spec_round (spec_channel (1/4) (1/5) - 1 / 2 ^ 42) = 153"
    "spec_round (spec_channel (1/4) (1/5) + 1 / 2 ^ 42) = 153"
    "spec_round (spec_channel (3/4) (1/5) - 1 / 2 ^ 42) = 51"
    "spec_round (spec_channel (3/4) (1/5) + 1 / 2 ^ 42) = 51"
    "spec_round (spec_channel 1 (1/5) - 1 / 2 ^ 42) = 0"
    "spec_round (spec_channel 1 (1/5) + 1 / 2 ^ 42) = 0"
    by (simp_all add: spec_round_def spec_channel_def floor_eq_iff)
  from cmyk2rgb_formula_and_range[of "Fin (1/4)" "Fin (3/4)" "Fin 1" "Fin (1/5)" "1/4" "3/4" 1 "1/5"] h
  obtain iR iG iB where r: "cmyk2rgb (Fin (1/4)) (Fin (3/4)) (Fin 1) (Fin (1/5))
      = [Fin (of_int iR), Fin (of_int iG), Fin (of_int iB)]"
    "spec_round (spec_channel (1/4) (1/5) - 1 / 2 ^ 42) \<le> iR"
    "iR \<le> spec_round (spec_channel (1/4) (1/5) + 1 / 2 ^ 42)"
    "spec_round (spec_channel (3/4) (1/5) - 1 / 2 ^ 42) \<le> iG"
    "iG \<le> spec_round (spec_channel (3/4) (1/5) + 1 / 2 ^ 42)"
    "spec_round (spec_channel 1 (1/5) - 1 / 2 ^ 42) \<le> iB"
    "iB \<le> spec_round (spec_channel 1 (1/5) + 1 / 2 ^ 42)"
    by blast
  have "iR = 153" "iG = 51" "iB = 0" using r(2-7) unfolding v by linarith+
  then show ?thesis using r(1) by simp
qed

section \<open>Formatting CMYK values\<close>

lemma drop_Cons_facts:
  assumes "drop i xs = v # vs"
  shows "i < length xs" "xs ! i = v" "drop (Suc i) xs = vs"
proof -
  show i: "i < length xs" using assms by (cases "i < length xs") simp_all
  from Cons_nth_drop_Suc[OF i] assms show "xs ! i = v" "drop (Suc i) xs = vs" by simp_all
qed

lemma take_Suc_update:
  assumes "i < length xs"
  shows "take (Suc i) (xs[i := s]) = take i xs @ [s]"
  using assms by (simp add: take_Suc_conv_app_nth)

lemma percent_loop_eq:
  assumes "drop i (h a) = map Num xs"
  shows "percent_loop H h a i =
         Inr (h(a := take i (h a) @
                map (\<lambda>x. Str (NumberToString H (Math_round (jsmul x (Fin 100)))
                              @ ustr '' %'')) xs))"
  using assms
proof (induction xs arbitrary: h i)
  case Nil
  then have "length (h a) \<le> i" by simp
  then show ?case by (simp add: percent_loop.simps)
next
  case (Cons x xs)
  have dr: "drop i (h a) = Num x # map Num xs" using Cons.prems by simp
  note f = drop_Cons_facts[OF dr]
  define s where "s = Str (NumberToString H (Math_round (jsmul x (Fin 100))) @ ustr '' %'')"
  define h' where "h' = h(a := (h a)[i := s])"
  have d: "drop (Suc i) (h' a) = map Num xs" using f by (simp add: h'_def)
  have t: "take (Suc i) (h' a) = take i (h a) @ [s]" using f by (simp add: h'_def take_Suc_update)
  have "percent_loop H h a i = percent_loop H h' a (Suc i)"
    using f by (subst percent_loop.simps) (simp add: h'_def s_def ToNumber_def)
  also note Cons.IH[of "Suc i" h', OF d]
  finally have E: "percent_loop H h a i =
      Inr (h'(a := take (Suc i) (h' a) @
                map (\<lambda>x. Str (NumberToString H (Math_round (jsmul x (Fin 100)))
                              @ ustr '' %'')) xs))" .
  show ?case unfolding E t by (auto simp: h'_def s_def fun_eq_iff)
qed

lemma fixed_loop_eq:
  assumes "drop i (h a) = map Num xs"
  shows "fixed_loop H h a i =
         Inr (h(a := take i (h a) @ map (\<lambda>x. Str (toFixed H 3 x)) xs))"
  using assms
proof (induction xs arbitrary: h i)
  case Nil
  then have "length (h a) \<le> i" by simp
  then show ?case by (simp add: fixed_loop.simps)
next
  case (Cons x xs)
  have dr: "drop i (h a) = Num x # map Num xs" using Cons.prems by simp
  note f = drop_Cons_facts[OF dr]
  define h' where "h' = h(a := (h a)[i := Str (toFixed H 3 x)])"
  have d: "drop (Suc i) (h' a) = map Num xs" using f by (simp add: h'_def)
  have t: "take (Suc i) (h' a) = take i (h a) @ [Str (toFixed H 3 x)]"
    using f by (simp add: h'_def take_Suc_update)
  have "fixed_loop H h a i = fixed_loop H h' a (Suc i)"
    using f by (subst fixed_loop.simps) (simp add: h'_def)
  also note Cons.IH[of "Suc i" h', OF d]
  finally have E: "fixed_loop H h a i =
      Inr (h'(a := take (Suc i) (h' a) @ map (\<lambda>x. Str (toFixed H 3 x)) xs))" .
  show ?case unfolding E t by (auto simp: h'_def fun_eq_iff)
qed

lemma formatCmykOutput_percent:
  assumes "h a = map Num xs" "isCMYKPercent p = ustr ''true''"
  shows "formatCmykOutput H p h a =
         Inr (a, h(a := map (\<lambda>x. Str (NumberToString H (Math_round (jsmul x (Fin 100)))
                                        @ ustr '' %'')) xs))"
proof -
  have "drop 0 (h a) = map Num xs" using assms by simp
  from percent_loop_eq[where i=0 and h=h and a=a and H=H, OF this] assms(2) show ?thesis
    by (simp add: formatCmykOutput_def)
qed

lemma formatCmykOutput_fixed:
  assumes "h a = map Num xs" "isCMYKPercent p \<noteq> ustr ''true''"
  shows "formatCmykOutput H p h a = Inr (a, h(a := map (\<lambda>x. Str (toFixed H 3 x)) xs))"
proof -
  have "drop 0 (h a) = map Num xs" using assms by simp
  from fixed_loop_eq[where i=0 and h=h and a=a and H=H, OF this] assms(2) show ?thesis
    by (simp add: formatCmykOutput_def)
qed

lemma formatCmykOutput_numbers:
  assumes "h a = map Num xs"
  shows "formatCmykOutput H p h a =
         Inr (a, h(a := map (\<lambda>x. Str (if isCMYKPercent p = ustr ''true''
                                        then NumberToString H (Math_round (jsmul x (Fin 100)))
                                             @ ustr '' %''
                                        else toFixed H 3 x)) xs))"
proof (cases "isCMYKPercent p = ustr ''true''")
  case True
  from formatCmykOutput_percent[where h=h and a=a and H=H and p=p, OF assms True] True
  show ?thesis by simp
next
  case False
  from formatCmykOutput_fixed[where h=h and a=a and H=H and p=p, OF assms False] False
  show ?thesis by simp
qed

lemma dec_digit: "n < 10 \<Longrightarrow> dec n = [0x30 + n]"
  by (simp add: dec.simps)

lemma dec_step: "10 \<le> n \<Longrightarrow> dec n = dec (n div 10) @ [0x30 + n mod 10]"
  by (subst dec.simps) simp

lemma dec_not_Nil: "dec n \<noteq> []"
  by (subst dec.simps) simp

lemma dec_1000:
  assumes "1000 \<le> n"
  shows "dec n = dec (n div 1000) @ [0x30 + n div 100 mod 10, 0x30 + n div 10 mod 10, 0x30 + n mod 10]"
proof -
  have a: "10 \<le> n" "10 \<le> n div 10" "10 \<le> n div 100" using assms by auto
  have b: "n div 10 div 10 = n div 100" "n div 100 div 10 = n div 1000"
    by (simp_all add: div_mult2_eq[symmetric])
  have "dec n = dec (n div 10) @ [0x30 + n mod 10]" using a(1) by (rule dec_step)
  also have "dec (n div 10) = dec (n div 100) @ [0x30 + n div 10 mod 10]"
    using dec_step[OF a(2)] by (simp only: b)
  also have "dec (n div 100) = dec (n div 1000) @ [0x30 + n div 100 mod 10]"
    using dec_step[OF a(3)] by (simp only: b)
  finally show ?thesis by simp
qed

text \<open>The digits of \<open>toFixed(3)\<close>: filled to four digits, the point before the last three.\<close>

lemma pad_point3:
  fixes n :: nat
  defines "m \<equiv> (if length (dec n) \<le> 3 then replicate (3 + 1 - length (dec n)) 0x30 @ dec n else dec n)"
  shows "take (length m - 3) m @ ustr ''.'' @ drop (length m - 3) m
         = dec (n div 1000) @ ustr ''.''
           @ [0x30 + n div 100 mod 10, 0x30 + n div 10 mod 10, 0x30 + n mod 10]"
proof -
  consider "n < 10" | "10 \<le> n" "n < 100" | "100 \<le> n" "n < 1000" | "1000 \<le> n" by linarith
  then show ?thesis
  proof cases
    case 1
    then have "dec n = [0x30 + n]" "n div 1000 = 0" "n div 100 = 0" "n div 10 = 0"
      by (simp_all add: dec_digit)
    then show ?thesis by (simp add: m_def dec_digit numeral_3_eq_3)
  next
    case 2
    then have "n div 10 < 10" by simp
    then have "dec n = [0x30 + n div 10, 0x30 + n mod 10]" using 2 by (simp add: dec_step dec_digit)
    moreover have "n div 1000 = 0" "n div 100 = 0" "n div 10 mod 10 = n div 10" using 2 by simp_all
    ultimately show ?thesis by (simp add: m_def dec_digit numeral_3_eq_3)
  next
    case 3
    then have a: "10 \<le> n" "10 \<le> n div 10" "n div 100 < 10" by auto
    have "n div 10 div 10 = n div 100" by (simp add: div_mult2_eq[symmetric])
    then have "dec (n div 10) = [0x30 + n div 100, 0x30 + n div 10 mod 10]"
      using dec_step[OF a(2)] a(3) by (simp add: dec_digit)
    then have "dec n = [0x30 + n div 100, 0x30 + n div 10 mod 10, 0x30 + n mod 10]"
      using dec_step[OF a(1)] by simp
    moreover have "n div 1000 = 0" "n div 100 mod 10 = n div 100" using 3 a by simp_all
    ultimately show ?thesis by (simp add: m_def dec_digit numeral_3_eq_3)
  next
    case 4
    note d = dec_1000[OF 4]
    have "3 < length (dec n)" using dec_not_Nil[of "n div 1000"] by (simp add: d Suc_le_eq)
    then have "m = dec n" by (simp add: m_def)
    then show ?thesis by (simp add: d)
  qed
qed

lemma fixed_digits3:
  "fixed_digits 3 q =
     (let n = nat \<lfloor>q * 1000 + 1/2\<rfloor>
      in dec (n div 1000) @ ustr ''.''
         @ [0x30 + n div 100 mod 10, 0x30 + n div 10 mod 10, 0x30 + n mod 10])"
proof -
  define n where "n = nat \<lfloor>q * 1000 + 1/2\<rfloor>"
  define m where "m = (if length (dec n) \<le> 3 then replicate (3 + 1 - length (dec n)) 0x30 @ dec n
                       else dec n)"
  have "fixed_digits 3 q = take (length m - 3) m @ ustr ''.'' @ drop (length m - 3) m"
    by (simp add: fixed_digits_def Let_def n_def m_def)
  also have "\<dots> = dec (n div 1000) @ ustr ''.''
         @ [0x30 + n div 100 mod 10, 0x30 + n div 10 mod 10, 0x30 + n mod 10]"
    unfolding m_def by (rule pad_point3)
  finally show ?thesis by (simp add: Let_def n_def)
qed

lemma toFixed_finite:
  assumes "\<bar>q\<bar> < 10 ^ 21"
  shows "toFixed H f (Fin q) = (if q < 0 then ustr ''-'' else []) @ fixed_digits f \<bar>q\<bar>"
proof -
  have "\<not> 10 ^ 21 \<le> \<bar>q\<bar>" using assms by simp
  then have a: "\<not> 10 ^ 21 \<le> q" "\<not> 10 ^ 21 \<le> - q" by (simp_all add: abs_if split: if_splits)
  show ?thesis
  proof (cases "q < 0")
    case True
    then have "\<bar>q\<bar> = - q" by simp
    then show ?thesis using True a by (simp add: toFixed_def)
  next
    case False
    then have "\<bar>q\<bar> = q" by simp
    then show ?thesis using False a by (simp add: toFixed_def)
  qed
qed


lemma Math_round_of_int: "Math_round (Fin (of_int k)) = Fin (of_int k)"
  by (rule Math_round_near) simp_all

lemma NumberToString_nat:
  assumes "n < 2 ^ 53"
  shows "NumberToString H (Fin (of_nat n)) = dec n"
proof -
  have "(of_nat n :: rat) < of_nat (2 ^ 53)" using assms by (simp only: of_nat_less_iff)
  then have "\<bar>of_nat n :: rat\<bar> < 2 ^ 53" by simp
  then show ?thesis by (simp add: NumberToString_def)
qed

lemma percent_text:
  assumes "k < 2 ^ 53" "x * 100 = of_nat k"
  shows "NumberToString H (Math_round (jsmul (Fin x) (Fin 100))) @ ustr '' %'' = dec k @ ustr '' %''"
proof -
  have "\<bar>int k\<bar> < 2 ^ 53" using assms(1) by simp
  from fl_of_int[OF this] have "fl (of_nat k) = Fin (of_nat k)" by simp
  then have "jsmul (Fin x) (Fin 100) = Fin (of_int (int k))" by (simp add: assms(2))
  then have "Math_round (jsmul (Fin x) (Fin 100)) = Fin (of_nat k)"
    by (simp only: Math_round_of_int) simp
  then show ?thesis using NumberToString_nat[OF assms(1)] by simp
qed

lemma percent_examples:
  "map (\<lambda>x. Str (NumberToString H (Math_round (jsmul x (Fin 100))) @ ustr '' %''))
       [Fin (1/2), Fin (1/4), Fin 1, Fin 0]
   = map (Str \<circ> ustr) [''50 %'', ''25 %'', ''100 %'', ''0 %'']"
proof -
  have d: "dec 50 = ustr ''50''" "dec 25 = ustr ''25''" "dec 100 = ustr ''100''" "dec 0 = ustr ''0''"
    by code_simp+
  have "NumberToString H (Math_round (jsmul (Fin (1/2)) (Fin 100))) @ ustr '' %'' = ustr ''50 %''"
    using percent_text[of 50 "1/2" H] by (simp add: d) (simp add: ustr_def)
  moreover
  have "NumberToString H (Math_round (jsmul (Fin (1/4)) (Fin 100))) @ ustr '' %'' = ustr ''25 %''"
    using percent_text[of 25 "1/4" H] by (simp add: d) (simp add: ustr_def)
  moreover
  have "NumberToString H (Math_round (jsmul (Fin 1) (Fin 100))) @ ustr '' %'' = ustr ''100 %''"
    using percent_text[of 100 1 H] by (simp add: d) (simp add: ustr_def)
  moreover
  have "NumberToString H (Math_round (jsmul (Fin 0) (Fin 100))) @ ustr '' %'' = ustr ''0 %''"
    using percent_text[of 0 0 H] by (simp add: d) (simp add: ustr_def)
  ultimately show ?thesis by simp
qed

lemma fixed_examples:
  "map (\<lambda>x. Str (toFixed H 3 x)) [Fin (1/2), Fin (1/4), Fin 1, Fin 0]
   = map (Str \<circ> ustr) [''0.500'', ''0.250'', ''1.000'', ''0.000'']"
proof -
  have "toFixed H 3 (Fin (1/2)) = ustr ''0.500''" "toFixed H 3 (Fin (1/4)) = ustr ''0.250''"
    "toFixed H 3 (Fin 1) = ustr ''1.000''" "toFixed H 3 (Fin 0) = ustr ''0.000''"
    by code_simp+
  then show ?thesis by simp
qed

lemma isCMYKPercent_on: "isCMYKPercent prefs_on = ustr ''true''"
  by (simp add: prefs_on_def)

lemma isCMYKPercent_off: "isCMYKPercent prefs_off \<noteq> ustr ''true''"
  by (simp add: prefs_off_def ustr_def)

lemma percent_value:
  assumes "0 \<le> x" "x \<le> 1"
  obtains i where
    "Math_round (jsmul (Fin x) (Fin 100)) = Fin (of_int i)" "0 \<le> i" "i \<le> 100"
    "spec_round (x * 100 - 1 / 2 ^ 45) \<le> i" "i \<le> spec_round (x * 100 + 1 / 2 ^ 45)"
proof -
  have "\<bar>x * 100\<bar> < 512" using assms by (intro abs_less_512) linarith+
  then obtain t where t: "fl (x * 100) = Fin t" "x * 100 - 256 * eps \<le> t"
    "t \<le> x * 100 + 256 * eps" by (rule fl_near512)
  have d45: "(1::rat) / 2 ^ 45 = 256 * eps" by (simp add: eps_def)
  have small: "(1::rat) / 2 ^ 45 \<le> 1 / 4" by simp
  have b: "x * 100 - 1 / 2 ^ 45 \<le> t" "t \<le> x * 100 + 1 / 2 ^ 45"
    unfolding d45 using t(2,3) by simp_all
  have "0 \<le> t + 1/2" "t + 1/2 < 101" using b assms small by linarith+
  then have "0 \<le> spec_round t" "spec_round t < 101"
    by (simp_all add: spec_round_def le_floor_iff floor_less_iff)
  moreover have "spec_round (x * 100 - 1 / 2 ^ 45) \<le> spec_round t"
    "spec_round t \<le> spec_round (x * 100 + 1 / 2 ^ 45)"
    using b by (simp_all add: spec_round_mono)
  moreover have "Math_round (jsmul (Fin x) (Fin 100)) = Fin (of_int (spec_round t))"
    by (simp add: t(1) Math_round_spec del: Math_round.simps)
  ultimately show thesis using that[of "spec_round t"] by simp
qed

lemma NumberToString_int:
  assumes "0 \<le> i" "i \<le> 100"
  shows "NumberToString H (Fin (of_int i)) = dec (nat i)"
proof -
  have "nat i < 2 ^ 53" using assms by simp
  from NumberToString_nat[OF this, of H] show ?thesis using assms by simp
qed

lemma percent_rounded:
  assumes "0 \<le> x" "x \<le> 1"
  shows "\<exists>i. NumberToString H (Math_round (jsmul (Fin x) (Fin 100))) = dec (nat i)
           \<and> 0 \<le> i \<and> i \<le> 100
           \<and> spec_round (x * 100 - 1 / 2 ^ 45) \<le> i \<and> i \<le> spec_round (x * 100 + 1 / 2 ^ 45)"
proof -
  obtain i where i: "Math_round (jsmul (Fin x) (Fin 100)) = Fin (of_int i)" "0 \<le> i" "i \<le> 100"
    "spec_round (x * 100 - 1 / 2 ^ 45) \<le> i" "i \<le> spec_round (x * 100 + 1 / 2 ^ 45)"
    using percent_value[OF assms] by blast
  have "NumberToString H (Math_round (jsmul (Fin x) (Fin 100))) = dec (nat i)"
    unfolding i(1) using i(2,3) by (rule NumberToString_int)
  then show ?thesis using i(2-5) by blast
qed

lemma percent_examples_eighths:
  "map (\<lambda>x. Str (NumberToString H (Math_round (jsmul x (Fin 100))) @ ustr '' %''))
       [Fin (1/8), Fin (5/16), Fin (7/8), Fin 1]
   = map (Str \<circ> ustr) [''13 %'', ''31 %'', ''88 %'', ''100 %'']"
proof -
  have d: "dec 13 = ustr ''13''" "dec 31 = ustr ''31''" "dec 88 = ustr ''88''"
    "dec 100 = ustr ''100''"
    by code_simp+
  have p: "jsmul (Fin (1/8)) (Fin 100) = Fin (25/2)" "jsmul (Fin (5/16)) (Fin 100) = Fin (125/4)"
    "jsmul (Fin (7/8)) (Fin 100) = Fin (175/2)" "jsmul (Fin 1) (Fin 100) = Fin 100"
    by (simp_all add: fl_examples)
  have n: "NumberToString H (Fin 13) = dec 13" "NumberToString H (Fin 31) = dec 31"
    "NumberToString H (Fin 88) = dec 88" "NumberToString H (Fin 100) = dec 100"
    using NumberToString_nat[of 13 H] NumberToString_nat[of 31 H] NumberToString_nat[of 88 H]
      NumberToString_nat[of 100 H] by simp_all
  show ?thesis
    unfolding list.map p round_examples n d by (simp add: ustr_def)
qed

lemma demo_heap_eighths_0:
  "demo_heap_eighths 0 = map Num [Fin (1/8), Fin (5/16), Fin (7/8), Fin 1]"
  by (simp add: demo_heap_eighths_def)

lemma demo_heap_0: "demo_heap 0 = map Num [Fin (1/2), Fin (1/4), Fin 1, Fin 0]"
  by (simp add: demo_heap_def)

text \<open>
  C7. On an array of numbers, with the preference \<open>isCMYKPercent\<close> set to \<open>"true"\<close>,
  \<open>formatCmykOutput\<close> turns each value \<open>x\<close> into \<open>round (x * 100)\<close> followed by the
  percent marker \<open>" %"\<close>; otherwise into \<open>x.toFixed(3)\<close>, which for a finite number below
  \<open>10^21\<close> is the sign, the integer part, a point and exactly three digits, none of them
  trimmed. For a value between 0 and 1 the percentage is the decimal notation of an integer
  between 0 and 100, which lies between the roundings (a tie going up) of the exact
  \<open>x * 100\<close> less and plus \<open>1 / 2 ^ 45\<close>, the error of the double precision product. The
  values 0.5, 0.25, 1 and 0 give \<open>50 %\<close>, \<open>25 %\<close>, \<open>100 %\<close>, \<open>0 %\<close> in the first case and
  \<open>0.500\<close>, \<open>0.250\<close>, \<open>1.000\<close>, \<open>0.000\<close> in the second; the values 0.125, 0.3125, 0.875
  and 1 give \<open>13 %\<close>, \<open>31 %\<close>, \<open>88 %\<close>, \<open>100 %\<close>.
\<close>

theorem formatCmykOutput_renders:
  "(h a = map Num xs \<longrightarrow>
      (\<exists>h'. formatCmykOutput H p h a = Inr (a, h')
         \<and> h' a = map (\<lambda>x. Str (if isCMYKPercent p = ustr ''true''
                                   then NumberToString H (Math_round (jsmul x (Fin 100)))
                                        @ ustr '' %''
                                   else toFixed H 3 x)) xs))
   \<and> (0 \<le> x \<and> x \<le> 1 \<longrightarrow>
        (\<exists>i. NumberToString H (Math_round (jsmul (Fin x) (Fin 100))) = dec (nat i)
           \<and> 0 \<le> i \<and> i \<le> 100
           \<and> spec_round (x * 100 - 1 / 2 ^ 45) \<le> i
           \<and> i \<le> spec_round (x * 100 + 1 / 2 ^ 45)))
   \<and> (\<bar>q\<bar> < 10 ^ 21 \<longrightarrow>
        toFixed H 3 (Fin q) =
          (let n = nat \<lfloor>\<bar>q\<bar> * 1000 + 1/2\<rfloor>
           in (if q < 0 then ustr ''-'' else []) @ dec (n div 1000) @ ustr ''.''
              @ [0x30 + n div 100 mod 10, 0x30 + n div 10 mod 10, 0x30 + n mod 10]))
   \<and> (h a = map Num [Fin (1/2), Fin (1/4), Fin 1, Fin 0] \<longrightarrow>
        (\<exists>h'. formatCmykOutput H prefs_on h a = Inr (a, h')
           \<and> h' a = map (Str \<circ> ustr) [''50 %'', ''25 %'', ''100 %'', ''0 %''])
        \<and> (\<exists>h'. formatCmykOutput H prefs_off h a = Inr (a, h')
           \<and> h' a = map (Str \<circ> ustr) [''0.500'', ''0.250'', ''1.000'', ''0.000'']))
   \<and> (h a = map Num [Fin (1/8), Fin (5/16), Fin (7/8), Fin 1] \<longrightarrow>
        (\<exists>h'. formatCmykOutput H prefs_on h a = Inr (a, h')
           \<and> h' a = map (Str \<circ> ustr) [''13 %'', ''31 %'', ''88 %'', ''100 %'']))"
proof (intro conjI impI)
  assume "h a = map Num xs"
  from formatCmykOutput_numbers[where h=h and a=a and H=H and p=p, OF this]
  show "\<exists>h'. formatCmykOutput H p h a = Inr (a, h')
         \<and> h' a = map (\<lambda>x. Str (if isCMYKPercent p = ustr ''true''
                                   then NumberToString H (Math_round (jsmul x (Fin 100)))
                                        @ ustr '' %''
                                   else toFixed H 3 x)) xs"
    by simp
next
  assume "0 \<le> x \<and> x \<le> 1"
  then show "\<exists>i. NumberToString H (Math_round (jsmul (Fin x) (Fin 100))) = dec (nat i)
           \<and> 0 \<le> i \<and> i \<le> 100
           \<and> spec_round (x * 100 - 1 / 2 ^ 45) \<le> i
           \<and> i \<le> spec_round (x * 100 + 1 / 2 ^ 45)"
    using percent_rounded[of x H] by blast
next
  assume "\<bar>q\<bar> < 10 ^ 21"
  then show "toFixed H 3 (Fin q) =
          (let n = nat \<lfloor>\<bar>q\<bar> * 1000 + 1/2\<rfloor>
           in (if q < 0 then ustr ''-'' else []) @ dec (n div 1000) @ ustr ''.''
              @ [0x30 + n div 100 mod 10, 0x30 + n div 10 mod 10, 0x30 + n mod 10])"
    by (simp only: toFixed_finite fixed_digits3 Let_def)
next
  assume "h a = map Num [Fin (1/2), Fin (1/4), Fin 1, Fin 0]"
  from formatCmykOutput_percent[where h=h and a=a and H=H and p=prefs_on, OF this isCMYKPercent_on]
  have "formatCmykOutput H prefs_on h a
        = Inr (a, h(a := map (Str \<circ> ustr) [''50 %'', ''25 %'', ''100 %'', ''0 %'']))"
    unfolding percent_examples .
  then show "\<exists>h'. formatCmykOutput H prefs_on h a = Inr (a, h')
           \<and> h' a = map (Str \<circ> ustr) [''50 %'', ''25 %'', ''100 %'', ''0 %'']"
    by simp
next
  assume "h a = map Num [Fin (1/2), Fin (1/4), Fin 1, Fin 0]"
  from formatCmykOutput_fixed[where h=h and a=a and H=H and p=prefs_off, OF this isCMYKPercent_off]
  have "formatCmykOutput H prefs_off h a
        = Inr (a, h(a := map (Str \<circ> ustr) [''0.500'', ''0.250'', ''1.000'', ''0.000'']))"
    unfolding fixed_examples .
  then show "\<exists>h'. formatCmykOutput H prefs_off h a = Inr (a, h')
           \<and> h' a = map (Str \<circ> ustr) [''0.500'', ''0.250'', ''1.000'', ''0.000'']"
    by simp
next
  assume "h a = map Num [Fin (1/8), Fin (5/16), Fin (7/8), Fin 1]"
  from formatCmykOutput_percent[where h=h and a=a and H=H and p=prefs_on, OF this isCMYKPercent_on]
  have "formatCmykOutput H prefs_on h a
        = Inr (a, h(a := map (Str \<circ> ustr) [''13 %'', ''31 %'', ''88 %'', ''100 %'']))"
    unfolding percent_examples_eighths .
  then show "\<exists>h'. formatCmykOutput H prefs_on h a = Inr (a, h')
           \<and> h' a = map (Str \<circ> ustr) [''13 %'', ''31 %'', ''88 %'', ''100 %'']"
    by simp
qed

theorem formatCmykOutput_renders_witness:
  "(case formatCmykOutput demo_host prefs_on demo_heap 0 of
      Inl e \<Rightarrow> False
    | Inr (r, h') \<Rightarrow> h' r = map (Str \<circ> ustr) [''50 %'', ''25 %'', ''100 %'', ''0 %''])
   \<and> (case formatCmykOutput demo_host prefs_off demo_heap 0 of
      Inl e \<Rightarrow> False
    | Inr (r, h') \<Rightarrow> h' r = map (Str \<circ> ustr) [''0.500'', ''0.250'', ''1.000'', ''0.000''])
   \<and> (case formatCmykOutput demo_host prefs_on demo_heap_eighths 0 of
      Inl e \<Rightarrow> False
    | Inr (r, h') \<Rightarrow> h' r = map (Str \<circ> ustr) [''13 %'', ''31 %'', ''88 %'', ''100 %''])
   \<and> NumberToString demo_host (Math_round (jsmul (Fin (1/3)) (Fin 100))) = ustr ''33''
   \<and> toFixed demo_host 3 (Fin (- 1/3)) = ustr ''-0.333''"
proof -
  have n: "nat \<lfloor>\<bar>- 1/3 :: rat\<bar> * 1000 + 1/2\<rfloor> = 333" by code_simp
  have d: "dec (333 div 1000) = ustr ''0''" by code_simp
  have "\<bar>- 1/3 :: rat\<bar> < 10 ^ 21" by simp
  with formatCmykOutput_renders[of demo_heap 0 "[]" demo_host prefs_on 0 "- 1/3"]
  have "toFixed demo_host 3 (Fin (- 1/3)) = ustr ''-0.333''"
    by (simp only: n d Let_def) (simp add: ustr_def)
  moreover from formatCmykOutput_renders[of demo_heap 0 "[]" demo_host prefs_on 0 0] demo_heap_0
  have "(\<exists>h'. formatCmykOutput demo_host prefs_on demo_heap 0 = Inr (0, h')
           \<and> h' 0 = map (Str \<circ> ustr) [''50 %'', ''25 %'', ''100 %'', ''0 %''])
        \<and> (\<exists>h'. formatCmykOutput demo_host prefs_off demo_heap 0 = Inr (0, h')
           \<and> h' 0 = map (Str \<circ> ustr) [''0.500'', ''0.250'', ''1.000'', ''0.000''])"
    by blast
  moreover
  from formatCmykOutput_renders[of demo_heap_eighths 0 "[]" demo_host prefs_on 0 0]
    demo_heap_eighths_0
  have "\<exists>h'. formatCmykOutput demo_host prefs_on demo_heap_eighths 0 = Inr (0, h')
           \<and> h' 0 = map (Str \<circ> ustr) [''13 %'', ''31 %'', ''88 %'', ''100 %'']"
    by blast
  moreover
  have "NumberToString demo_host (Math_round (jsmul (Fin (1/3)) (Fin 100))) = ustr ''33''"
  proof -
    have v: "spec_round (1/3 * 100 - 1 / 2 ^ 45) = 33" "spec_round (1/3 * 100 + 1 / 2 ^ 45) = 33"
      by (simp_all add: spec_round_def floor_eq_iff)
    have "(0::rat) \<le> 1/3 \<and> (1/3::rat) \<le> 1" by simp
    with formatCmykOutput_renders[of demo_heap 0 "[]" demo_host prefs_on "1/3" 0]
    obtain i where i: "NumberToString demo_host (Math_round (jsmul (Fin (1/3)) (Fin 100)))
        = dec (nat i)"
      "spec_round (1/3 * 100 - 1 / 2 ^ 45) \<le> i" "i \<le> spec_round (1/3 * 100 + 1 / 2 ^ 45)"
      by blast
    have "i = 33" using i(2,3) unfolding v by linarith
    moreover have "dec 33 = ustr ''33''" by code_simp
    ultimately show ?thesis using i(1) by simp
  qed
  ultimately show ?thesis by auto
qed

text \<open>
  C9, as stated, says that a call leaves the caller's array as it was. The loops assign
  to \<open>aCMYK[i]\<close>, that is to the array passed in: after the call, array 0 of the example
  store holds the four strings and no longer the four numbers.
\<close>

theorem formatCmykOutput_pure_counterexample:
  "formatCmykOutput demo_host prefs_off demo_heap 0
     = Inr (0, demo_heap(0 := map (Str \<circ> ustr) [''0.500'', ''0.250'', ''1.000'', ''0.000'']))
   \<and> (demo_heap(0 := map (Str \<circ> ustr) [''0.500'', ''0.250'', ''1.000'', ''0.000''])) 0
       \<noteq> demo_heap 0"
proof -
  have "formatCmykOutput demo_host prefs_off demo_heap 0
     = Inr (0, demo_heap(0 := map (Str \<circ> ustr) [''0.500'', ''0.250'', ''1.000'', ''0.000'']))"
    using formatCmykOutput_fixed[where h=demo_heap and a=0 and H=demo_host and p=prefs_off,
        OF demo_heap_0 isCMYKPercent_off]
    unfolding fixed_examples .
  then show ?thesis by (simp add: demo_heap_def)
qed

text \<open>
  C9, amended. \<open>formatCmykOutput\<close> formats in place: given an array of numbers it returns
  the reference of that same array, every element of which it has overwritten with a
  string (so a non-empty array no longer holds its numeric values); no other array of the
  store is changed.
\<close>

theorem formatCmykOutput_in_place:
  assumes "h a = map Num xs"
  shows "\<exists>ss. formatCmykOutput H p h a = Inr (a, h(a := map Str ss))
           \<and> length ss = length xs
           \<and> (xs \<noteq> [] \<longrightarrow> (h(a := map Str ss)) a \<noteq> h a)"
proof -
  define ss where "ss = map (\<lambda>x. if isCMYKPercent p = ustr ''true''
                                   then NumberToString H (Math_round (jsmul x (Fin 100)))
                                        @ ustr '' %''
                                   else toFixed H 3 x) xs"
  have "formatCmykOutput H p h a = Inr (a, h(a := map Str ss))"
    using formatCmykOutput_numbers[where h=h and a=a and H=H and p=p, OF assms] by (simp add: ss_def o_def)
  moreover have "length ss = length xs" by (simp add: ss_def)
  moreover have "(h(a := map Str ss)) a \<noteq> h a" if "xs \<noteq> []"
  proof -
    from that obtain x xs' where "xs = x # xs'" by (cases xs) auto
    then show ?thesis by (simp add: assms ss_def)
  qed
  ultimately show ?thesis by blast
qed

theorem formatCmykOutput_in_place_witness:
  "\<exists>ss. formatCmykOutput demo_host prefs_on demo_heap 0 = Inr (0, demo_heap(0 := map Str ss))
     \<and> length ss = 4 \<and> (demo_heap(0 := map Str ss)) 0 \<noteq> demo_heap 0"
proof -
  from formatCmykOutput_in_place[where h=demo_heap and a=0 and H=demo_host and p=prefs_on,
      OF demo_heap_0]
  obtain ss where ss: "formatCmykOutput demo_host prefs_on demo_heap 0
                       = Inr (0, demo_heap(0 := map Str ss))"
    "length ss = length [Fin (1/2), Fin (1/4), Fin 1, Fin (0::rat)]"
    "[Fin (1/2), Fin (1/4), Fin 1, Fin (0::rat)] \<noteq> [] \<longrightarrow>
       (demo_heap(0 := map Str ss)) 0 \<noteq> demo_heap 0"
    by blast
  have "length ss = 4" using ss(2) by simp
  moreover have "(demo_heap(0 := map Str ss)) 0 \<noteq> demo_heap 0" using ss(3) by simp
  ultimately show ?thesis using ss(1) by blast
qed

section \<open>Normalizing a HEX string\<close>

lemma charAt_0: "charAt s (Fin 0) = take 1 s"
  by (cases s) (simp_all add: trunc_def)

lemma clean_eq:
  "(if charAt v (Fin 0) = ustr ''#'' then substr v 1 6
    else if 6 < length v then substr v 0 6 else v) = spec_clean v"
  by (cases v) (auto simp: trunc_def ustr_def substr_def spec_clean_def)

lemma double3:
  assumes "length v = 3"
  shows "charAt v (Fin 0) @ charAt v (Fin 0) @ charAt v (Fin 1) @ charAt v (Fin 1)
         @ charAt v (Fin 2) @ charAt v (Fin 2) = concat (map (\<lambda>x. [x, x]) v)"
proof -
  obtain a b c where "v = [a, b, c]"
    using assms by (metis length_0_conv length_Suc_conv numeral_3_eq_3)
  then show ?thesis by (simp add: trunc_def)
qed

lemma double3_if:
  "(if length v = 3
    then charAt v (Fin 0) @ charAt v (Fin 0) @ charAt v (Fin 1) @ charAt v (Fin 1)
         @ charAt v (Fin 2) @ charAt v (Fin 2)
    else v)
   = (if length v = 3 then concat (map (\<lambda>x. [x, x]) v) else v)"
  using double3[of v] by (simp del: charAt.simps)

lemma hexclass_spec: "hexclass c = spec_hexchar c"
  by (auto simp: hexclass_def spec_hexchar_def)

lemma regExp_test_short: "length s < 6 \<Longrightarrow> \<not> regExp_test s"
  by (induction s) auto

lemma regExp_test_six: "length s = 6 \<Longrightarrow> regExp_test s = list_all spec_hexchar s"
  by (cases s) (auto simp: regExp_test_short hexclass_spec[abs_def])

lemma upper_unit_ascii: "c < 128 \<Longrightarrow> upper_unit c = [if 0x61 \<le> c \<and> c \<le> 0x7A then c - 0x20 else c]"
  by (simp add: upper_unit_def)

lemma toUpperCase_known: "list_all upper_known s \<Longrightarrow> toUpperCase H s = concat (map upper_unit s)"
  by (simp add: toUpperCase_def)

lemma ascii_known: "\<forall>c\<in>set s. c < 128 \<Longrightarrow> list_all upper_known s"
  by (induction s) (simp_all add: upper_known_def)

lemma concat_upper_ascii_length:
  "\<forall>c\<in>set s. c < 128 \<Longrightarrow> length (concat (map upper_unit s)) = length s"
  by (induction s) (simp_all add: upper_unit_ascii)

lemma toUpperCase_ascii_length:
  "\<forall>c\<in>set s. c < 128 \<Longrightarrow> length (toUpperCase H s) = length s"
  by (simp add: toUpperCase_known ascii_known concat_upper_ascii_length)

lemma upper_unit_hex: "spec_hexchar c \<Longrightarrow> upper_unit c = [c]"
  by (auto simp: spec_hexchar_def upper_unit_def)

lemma hex_known: "list_all spec_hexchar s \<Longrightarrow> list_all upper_known s"
  by (induction s) (auto simp: spec_hexchar_def upper_known_def)

lemma concat_upper_hex: "list_all spec_hexchar s \<Longrightarrow> concat (map upper_unit s) = s"
  by (induction s) (simp_all add: upper_unit_hex)

lemma toUpperCase_hex: "list_all spec_hexchar s \<Longrightarrow> toUpperCase H s = s"
  by (simp add: toUpperCase_known hex_known concat_upper_hex)

lemma makeValidHex_unfold:
  "makeValidHex H v =
    (let c = spec_clean v
     in if length c \<noteq> 3 \<and> length c \<noteq> 6 then HEX_NOT_VALID
        else let u = toUpperCase H (if length c = 3 then concat (map (\<lambda>x. [x, x]) c) else c)
             in if regExp_test u then Str u else HEX_NOT_VALID)"
  unfolding makeValidHex_def clean_eq double3_if Let_def by simp

text \<open>
  On a string of ASCII characters the code does what the specification's six steps say,
  and a string it returns has six characters, all of them in \<open>0-9A-F\<close>.
\<close>

lemma makeValidHex_ascii:
  assumes "\<forall>c\<in>set s. c < 128"
  shows "makeValidHex H s = (case spec_validateAndNormalizeHex H s of
                             None \<Rightarrow> HEX_NOT_VALID | Some h \<Rightarrow> Str h)"
    and "makeValidHex H s = Str h \<Longrightarrow> length h = 6 \<and> list_all spec_hexchar h"
proof -
  define c where "c = spec_clean s"
  define e where "e = (if length c = 3 then concat (map (\<lambda>x. [x, x]) c) else c)"
  have "set c \<subseteq> set s"
    by (cases s) (auto simp: c_def spec_clean_def dest: in_set_takeD)
  then have "set e \<subseteq> set s" by (auto simp: e_def)
  then have "\<forall>x\<in>set e. x < 128" using assms by blast
  then have len: "length (toUpperCase H e) = length e" by (rule toUpperCase_ascii_length)
  have le: "length e = 6" if "length c = 3 \<or> length c = 6"
    using that by (auto simp: e_def length_concat o_def sum_list_triv)
  have t: "regExp_test (toUpperCase H e) = list_all spec_hexchar (toUpperCase H e)"
    if "length c = 3 \<or> length c = 6"
    using le[OF that] len by (simp add: regExp_test_six)
  show "makeValidHex H s = (case spec_validateAndNormalizeHex H s of
                             None \<Rightarrow> HEX_NOT_VALID | Some h \<Rightarrow> Str h)"
    unfolding makeValidHex_unfold spec_validateAndNormalizeHex_def Let_def
      c_def[symmetric] e_def[symmetric]
    using t by auto
  show "length h = 6 \<and> list_all spec_hexchar h" if "makeValidHex H s = Str h"
    using that t le len
    unfolding makeValidHex_unfold Let_def c_def[symmetric] e_def[symmetric]
    by (auto simp: HEX_NOT_VALID_def split: if_splits)
qed

text \<open>A returned string of six characters is returned unchanged when it is given back.\<close>

lemma makeValidHex_idempotent_on_six:
  assumes "makeValidHex H s = Str h" "length h = 6"
  shows "makeValidHex H h = Str h"
proof -
  have "regExp_test h"
    using assms(1) unfolding makeValidHex_unfold Let_def
    by (auto simp: HEX_NOT_VALID_def split: if_splits)
  then have hex: "list_all spec_hexchar h" using assms(2) by (simp add: regExp_test_six)
  obtain x r where h: "h = x # r" using assms(2) by (cases h) auto
  have "spec_hexchar x" using hex h by simp
  then have "x \<noteq> 0x23" by (auto simp: spec_hexchar_def)
  then have "spec_clean h = h" using assms(2) h by (simp add: spec_clean_def)
  then show ?thesis
    unfolding makeValidHex_unfold Let_def
    using assms(2) hex \<open>regExp_test h\<close> by (simp add: toUpperCase_hex)
qed

text \<open>The four examples of the specification.\<close>

lemma makeValidHex_examples:
  "makeValidHex H (ustr ''abc'') = Str (ustr ''AABBCC'')"
  "makeValidHex H (ustr ''#1a2b3c'') = Str (ustr ''1A2B3C'')"
  "makeValidHex H (ustr ''12'') = HEX_NOT_VALID"
  "makeValidHex H (ustr ''GGHHII'') = HEX_NOT_VALID"
  by (simp_all add: makeValidHex_unfold spec_clean_def toUpperCase_def upper_known_def upper_unit_def
      hexclass_def ustr_def)

text \<open>
  C3 says that \<open>makeValidHex\<close> signals Invalid exactly when the cleaned string has a
  length other than 3 and 6 or holds a character outside \<open>0-9A-F\<close>, and that it returns
  the normalized string of six characters otherwise. The code departs from this on the
  string of the ligature U+FB00 twice and \<open>z\<close>: the cleaned string has length 3, its upper
  case \<open>FFFFFFFFZZ\<close> has ten characters, and the regular expression, which has no
  anchors, finds six characters of its class in a row. The code returns \<open>FFFFFFFFZZ\<close>
  where the six steps of the specification give Invalid.
\<close>

theorem makeValidHex_returns_non_hex:
  "makeValidHex H [0xFB00, 0xFB00, 0x7A] = Str (ustr ''FFFFFFFFZZ'')
   \<and> spec_validateAndNormalizeHex H [0xFB00, 0xFB00, 0x7A] = None"
  by (simp add: makeValidHex_unfold spec_validateAndNormalizeHex_def spec_clean_def
      toUpperCase_def upper_known_def upper_unit_def hexclass_def spec_hexchar_def ustr_def)

text \<open>
  C10 says that a string which \<open>makeValidHex\<close> returns is returned unchanged when it is
  given back. For three times the ligature U+FB00 the code returns twelve times \<open>F\<close>, and
  for these twelve characters it returns six times \<open>F\<close>.
\<close>

theorem makeValidHex_not_idempotent:
  "makeValidHex H [0xFB00, 0xFB00, 0xFB00] = Str (ustr ''FFFFFFFFFFFF'')
   \<and> makeValidHex H (ustr ''FFFFFFFFFFFF'') = Str (ustr ''FFFFFF'')
   \<and> ustr ''FFFFFF'' \<noteq> ustr ''FFFFFFFFFFFF''"
  by (simp add: makeValidHex_unfold spec_clean_def toUpperCase_def upper_known_def upper_unit_def
      hexclass_def ustr_def)

end
